theory Spec2Isabelle
  imports Complex_Main "HOL-Library.While_Combinator" "HOL-Library.AList"
begin

section \<open>Data model of the frame watcher\<close>

text \<open>
  A \<^verbatim>\<open>datetime\<close> has microsecond resolution: a timestamp is the number of microseconds
  since some epoch, and \<^verbatim>\<open>(a - b).total_seconds()\<close> is the difference divided by
  \<open>10\<^sup>6\<close>. Python computes it, and the frame rate, in binary floating point; the model
  computes both exactly, in the rationals.
\<close>

type_synonym timestamp = int

definition total_seconds :: "int \<Rightarrow> rat" where
  "total_seconds d = of_int d / 1000000"

text \<open>The exceptions that the modelled code can raise.\<close>

datatype error =
    ZeroDivisionError
  | IndexError
  | AttributeError
  | DetectorError string

text \<open>
  The lifecycle thread of \<^verbatim>\<open>run\<close>, which executes \<^verbatim>\<open>_watch\<close>: it is about to test the
  outer \<^verbatim>\<open>while self._running\<close>, about to test the inner \<^verbatim>\<open>while\<close>, or it has left
  \<^verbatim>\<open>_watch\<close>. The second component of a thread is the local variable \<^verbatim>\<open>last_log\<close>.
\<close>

datatype pc = AtOuter | AtInner | Exited

type_synonym lifecycle_thread = "pc \<times> timestamp"

text \<open>
  The fields that \<^verbatim>\<open>FrameWatcher.__init__\<close> sets, with the prefix \<open>w_\<close> (an Isabelle name
  cannot start with an underscore). \<^verbatim>\<open>_buffer\<close> is a reference to the shared buffer,
  which the model keeps beside the watcher. \<open>w_thread = None\<close> is \<^verbatim>\<open>self._thread is None\<close>.
  A detector variant extends the record with its own fields.
\<close>

record watcher =
  w_frame_index :: nat
  w_thread :: "lifecycle_thread option"
  w_running :: bool
  w_display_video :: bool
  w_display_window_name :: string
  w_name :: string
  w_prev_timestamp :: timestamp
  w_fps_counter :: nat
  w_fps_time :: timestamp
  w_fps :: rat
  w_text_size :: rat

definition FPS_FRAMES :: nat where
  "FPS_FRAMES = 20"

text \<open>
  \<^verbatim>\<open>__init__\<close>; the two timestamps are the two readings of \<^verbatim>\<open>datetime.now()\<close>.
\<close>

definition init :: "string \<Rightarrow> bool \<Rightarrow> string option \<Rightarrow> timestamp \<Rightarrow> timestamp \<Rightarrow> watcher" where
  "init name display_video display_window_name now1 now2 =
     \<lparr> w_frame_index = 0,
       w_thread = None,
       w_running = False,
       w_display_video = display_video,
       w_display_window_name =
         (case display_window_name of None \<Rightarrow> name | Some n \<Rightarrow> n),
       w_name = name,
       w_prev_timestamp = now1,
       w_fps_counter = 0,
       w_fps_time = now2,
       w_fps = 0,
       w_text_size = 1 / 2 \<rparr>"

subsection \<open>FPS telemetry\<close>

text \<open>
  \<^verbatim>\<open>_track_fps\<close>. The argument \<open>now\<close> is what \<^verbatim>\<open>datetime.now()\<close> returns. A Python
  exception leaves the assignments made before it in place, so the watcher is returned in
  both cases: the division raises after the counter has been incremented and before it
  is reset.
\<close>

definition track_fps ::
  "timestamp \<Rightarrow> 'd watcher_scheme \<Rightarrow> (error + rat) \<times> 'd watcher_scheme" where
  "track_fps now w =
     (let w1 = w\<lparr>w_fps_counter := w_fps_counter w + 1\<rparr> in
      if w_fps_counter w1 = FPS_FRAMES then
        (let new_time = now;
             time_s = total_seconds (new_time - w_fps_time w1) in
         if time_s = 0 then (Inl ZeroDivisionError, w1)
         else
           (let w2 = w1\<lparr>w_fps := of_nat FPS_FRAMES / time_s,
                        w_fps_time := new_time,
                        w_fps_counter := 0\<rparr>
            in (Inr (w_fps w2), w2)))
      else (Inr (w_fps w1), w1))"

text \<open>
  Calling \<^verbatim>\<open>_track_fps\<close> once per processed frame, at the given clock readings: the values
  returned, up to the first call that raises.
\<close>

fun track_fps_seq ::
  "timestamp list \<Rightarrow> 'd watcher_scheme \<Rightarrow> (error + rat list) \<times> 'd watcher_scheme" where
  "track_fps_seq [] w = (Inr [], w)"
| "track_fps_seq (now # nows) w =
     (case track_fps now w of
        (Inl e, w1) \<Rightarrow> (Inl e, w1)
      | (Inr f, w1) \<Rightarrow>
          (case track_fps_seq nows w1 of
             (Inl e, w2) \<Rightarrow> (Inl e, w2)
           | (Inr fs, w2) \<Rightarrow> (Inr (f # fs), w2)))"

subsection \<open>The per-frame contract\<close>

text \<open>
  The drawing primitives \<^verbatim>\<open>cv2.circle\<close> and \<^verbatim>\<open>cv2.putText\<close> belong to OpenCV, not to
  this repository: they are parameters, functions on the pixels of a frame, with the
  arguments the code passes (centre, radius, colour and thickness; text, origin, scale,
  colour and thickness). The text is \<^verbatim>\<open>'{} {:.01f} FPS'.format(self.name, fps)\<close>; the
  model passes the two format arguments.
\<close>

type_synonym colour = "int \<times> int \<times> int"

type_synonym overlay_text = "string \<times> rat"

record 'px cv2 =
  circle :: "(int \<times> int) \<Rightarrow> int \<Rightarrow> colour \<Rightarrow> int \<Rightarrow> 'px \<Rightarrow> 'px"
  putText :: "overlay_text \<Rightarrow> (int \<times> int) \<Rightarrow> rat \<Rightarrow> colour \<Rightarrow> int \<Rightarrow> 'px \<Rightarrow> 'px"

text \<open>
  The result of the per-frame contract: the processed frame and the events, where
  \<open>None\<close> is Python's \<^verbatim>\<open>None\<close> (the driver tests \<^verbatim>\<open>events is not None\<close>). A method of
  the watcher takes the clock reading, the timestamp and the frame, and returns the
  result or the exception raised, with the watcher as the call left it.
\<close>

type_synonym ('px, 'e) frame_result = "'px \<times> 'e list option"

type_synonym ('px, 'e, 'd) frame_method =
  "timestamp \<Rightarrow> timestamp \<Rightarrow> 'px \<Rightarrow> 'd watcher_scheme
     \<Rightarrow> (error + ('px, 'e) frame_result) \<times> 'd watcher_scheme"

text \<open>\<^verbatim>\<open>_custom_processing\<close> of the base class: the stub that child classes override.\<close>

definition custom_processing ::
  "timestamp \<Rightarrow> 'px \<Rightarrow> 'd watcher_scheme
     \<Rightarrow> (error + ('px, 'e) frame_result) \<times> 'd watcher_scheme" where
  "custom_processing timestamp frame w = (let events = [] in (Inr (frame, Some events), w))"

text \<open>
  \<^verbatim>\<open>process_frame\<close>, on the pixels of the frame. The variant-specific step
  \<^verbatim>\<open>self._custom_processing\<close> is dispatched on the class of the watcher: it is the
  parameter \<open>custom\<close>. \<open>time_delta\<close> is computed and not used, as in the code.
\<close>

definition process_frame ::
  "'px cv2
     \<Rightarrow> (timestamp \<Rightarrow> 'px \<Rightarrow> 'd watcher_scheme
           \<Rightarrow> (error + ('px, 'e) frame_result) \<times> 'd watcher_scheme)
     \<Rightarrow> ('px, 'e, 'd) frame_method" where
  "process_frame cv custom now timestamp frame w =
     (let time_delta = total_seconds (timestamp - w_prev_timestamp w) in
      case track_fps now w of
        (Inl ex, w1) \<Rightarrow> (Inl ex, w1)
      | (Inr fps, w1) \<Rightarrow>
          (let text = (w_name w1, fps);
               color_index = 0;
               radius = 4;
               processed_frame =
                 circle cv (8, 12) radius
                   (10 + 10 * color_index, 40 + 30 * color_index, 200) 2 frame;
               origin = (17, 16);
               text_color = (150, 120, 50);
               processed_frame =
                 putText cv text origin (w_text_size w1) text_color 1 processed_frame
           in custom timestamp processed_frame w1))"

subsection \<open>The frame buffer\<close>

text \<open>
  Modelled from the spec: the class \<^verbatim>\<open>FrameBuffer\<close> (\<^verbatim>\<open>src/frame_buffer.py\<close>) is not among
  the sources. The watcher reads four attributes of it, which are the fields here:
  \<^verbatim>\<open>buffer\<close>, the slots, each a pair (timestamp, frame) or \<^verbatim>\<open>None\<close>; \<^verbatim>\<open>buffer_len\<close>, the
  capacity; \<^verbatim>\<open>frame_index\<close>, the write cursor; \<^verbatim>\<open>frame_count\<close>, the cumulative counter.
\<close>

record 'px frame_buffer =
  buffer :: "(timestamp \<times> 'px) option list"
  buffer_len :: nat
  frame_index :: nat
  frame_count :: nat

text \<open>
  Modelled from the spec: the producer's write, which is not among the sources. The spec
  says that the producer advances the write cursor, wrapping at the capacity, that a slot
  write replaces the whole slot, that the frame counter is cumulative, and (scenario of
  section 8) that after the producer has written index 7 the cursor is 7 and the next
  write goes to index 0 and leaves the cursor at 0: the cursor is the slot written last.
\<close>

definition write_frame :: "timestamp \<Rightarrow> 'px \<Rightarrow> 'px frame_buffer \<Rightarrow> 'px frame_buffer" where
  "write_frame ts f fb =
     (let i = (frame_index fb + 1) mod buffer_len fb in
      fb\<lparr>buffer := (buffer fb)[i := Some (ts, f)],
         frame_index := i,
         frame_count := frame_count fb + 1\<rparr>)"

text \<open>A buffer as the spec describes it: \<open>N > 0\<close> slots, \<open>0..N-1\<close>, and the cursor on one.\<close>

definition valid_buffer :: "'px frame_buffer \<Rightarrow> bool" where
  "valid_buffer fb \<longleftrightarrow>
     0 < buffer_len fb \<and> length (buffer fb) = buffer_len fb \<and> frame_index fb < buffer_len fb"

subsection \<open>The lifecycle thread\<close>

text \<open>
  What \<^verbatim>\<open>logger\<close> receives: \<^verbatim>\<open>logger.info\<close> with a text, the heartbeat
  \<^verbatim>\<open>'{} heartbeat {:08d}'.format(self.name, self._buffer.frame_count)\<close> with its two
  arguments, \<^verbatim>\<open>logger.error\<close> with a text, and \<^verbatim>\<open>logger.exception(ex)\<close>.
\<close>

datatype log_entry =
    Info string
  | Heartbeat string nat
  | ErrorMsg string
  | ExceptionTrace error

text \<open>
  The watcher with what it shares and what it emits: \<open>shared\<close> is the buffer that
  \<^verbatim>\<open>self._buffer\<close> refers to, \<open>logger\<close> the log, \<open>screen\<close> the calls of \<^verbatim>\<open>cv2.imshow\<close>
  (window name and frame). \<open>dispatched\<close> is not a variable of the code: it is the
  history of the calls \<^verbatim>\<open>self.process_frame(timestamp, frame)\<close> that \<^verbatim>\<open>_watch\<close> has made,
  kept to state which frames were delivered and in which order.
\<close>

record ('px, 'd) sys =
  self :: "'d watcher_scheme"
  shared :: "'px frame_buffer"
  logger :: "log_entry list"
  screen :: "(string \<times> 'px) list"
  dispatched :: "(timestamp \<times> 'px) list"

definition set_pc :: "pc \<Rightarrow> 'd watcher_scheme \<Rightarrow> 'd watcher_scheme" where
  "set_pc p w = w\<lparr>w_thread := map_option (\<lambda>(_, last_log). (p, last_log)) (w_thread w)\<rparr>"

text \<open>
  \<^verbatim>\<open>run\<close>, with the first statements of \<^verbatim>\<open>_watch\<close> that the new thread executes: the
  thread is then about to test the outer loop. The model has one lifecycle thread: \<^verbatim>\<open>run\<close>
  on a watcher whose thread is alive would start a second one, which is not modelled.
\<close>

definition run :: "timestamp \<Rightarrow> timestamp \<Rightarrow> ('px, 'd) sys \<Rightarrow> ('px, 'd) sys" where
  "run now1 now2 s =
     s\<lparr>self := (self s)\<lparr>w_thread := Some (AtOuter, now2),
                          w_running := True,
                          w_prev_timestamp := now1\<rparr>,
       logger := logger s @ [Info (w_name (self s) @ '' running'')]\<rparr>"

text \<open>The \<^verbatim>\<open>except Exception\<close> clause of \<^verbatim>\<open>_watch\<close>: two log entries, and the thread ends.\<close>

definition except_handler :: "error \<Rightarrow> ('px, 'd) sys \<Rightarrow> ('px, 'd) sys" where
  "except_handler ex s =
     s\<lparr>logger := logger s @ [ErrorMsg (''Exception caught in '' @ w_name (self s)),
                              ExceptionTrace ex],
       self := set_pc Exited (self s)\<rparr>"

definition display_video :: "'px \<Rightarrow> ('px, 'd) sys \<Rightarrow> ('px, 'd) sys" where
  "display_video frame s =
     s\<lparr>screen := screen s @ [(w_display_window_name (self s), frame)]\<rparr>"

text \<open>
  The body of the inner loop of \<^verbatim>\<open>_watch\<close>: advance the cursor, read the slot, skip an
  empty one, dispatch a full one to \<^verbatim>\<open>self.process_frame\<close> (the parameter \<open>pf\<close>, since
  the method is dispatched on the class of the watcher). The modulo raises for a capacity
  of 0 and the subscript raises out of range; every exception ends in the handler.
\<close>

definition watch_body ::
  "('px, 'e, 'd) frame_method \<Rightarrow> timestamp \<Rightarrow> ('px, 'd) sys \<Rightarrow> ('px, 'd) sys" where
  "watch_body pf now s =
     (if buffer_len (shared s) = 0 then except_handler ZeroDivisionError s
      else
        (let i = (w_frame_index (self s) + 1) mod buffer_len (shared s);
             s1 = s\<lparr>self := (self s)\<lparr>w_frame_index := i\<rparr>\<rparr>
         in
           if length (buffer (shared s1)) \<le> i then except_handler IndexError s1
           else
             (case buffer (shared s1) ! i of
                None \<Rightarrow> s1
              | Some (timestamp, frame) \<Rightarrow>
                  (let s2 = s1\<lparr>dispatched := dispatched s1 @ [(timestamp, frame)]\<rparr> in
                   case pf now timestamp frame (self s2) of
                     (Inl ex, w2) \<Rightarrow> except_handler ex (s2\<lparr>self := w2\<rparr>)
                   | (Inr (processed_frame, events), w2) \<Rightarrow>
                       (let s3 = s2\<lparr>self := w2\<lparr>w_prev_timestamp := timestamp\<rparr>\<rparr> in
                        if w_display_video (self s3) then display_video processed_frame s3
                        else s3)))))"

text \<open>
  After the inner loop: the sleep of 5 ms, and the heartbeat when more than 60 s have
  passed since the last one; the thread is then back at the test of the outer loop.
\<close>

definition watch_idle :: "timestamp \<Rightarrow> timestamp \<Rightarrow> ('px, 'd) sys \<Rightarrow> ('px, 'd) sys" where
  "watch_idle now last_log s =
     (if total_seconds (now - last_log) > 60 then
        s\<lparr>logger := logger s @ [Heartbeat (w_name (self s)) (frame_count (shared s))],
          self := (self s)\<lparr>w_thread := Some (AtOuter, now)\<rparr>\<rparr>
      else s\<lparr>self := (self s)\<lparr>w_thread := Some (AtOuter, last_log)\<rparr>\<rparr>)"

text \<open>
  One step of the lifecycle thread, from one loop test to the next; \<open>now\<close> is the clock
  reading during the step. A step is atomic in the model: the producer and the caller of
  \<^verbatim>\<open>stop\<close> act between steps.
\<close>

definition watch_step ::
  "('px, 'e, 'd) frame_method \<Rightarrow> timestamp \<Rightarrow> ('px, 'd) sys \<Rightarrow> ('px, 'd) sys" where
  "watch_step pf now s =
     (case w_thread (self s) of
        None \<Rightarrow> s
      | Some (Exited, last_log) \<Rightarrow> s
      | Some (AtOuter, last_log) \<Rightarrow>
          (if w_running (self s) then s\<lparr>self := set_pc AtInner (self s)\<rparr>
           else s\<lparr>self := set_pc Exited (self s)\<rparr>)
      | Some (AtInner, last_log) \<Rightarrow>
          (if w_frame_index (self s) \<noteq> frame_index (shared s) \<and> w_running (self s)
           then watch_body pf now s
           else watch_idle now last_log s))"

text \<open>
  What happens around the lifecycle thread: the producer writes a frame, the caller of
  \<^verbatim>\<open>stop\<close> executes \<^verbatim>\<open>self._running = False\<close>, or the thread takes a step. A schedule is
  a list of such events.
\<close>

datatype 'px event =
    Write timestamp 'px
  | ClearRunning
  | Tick timestamp

fun step :: "('px, 'e, 'd) frame_method \<Rightarrow> 'px event \<Rightarrow> ('px, 'd) sys \<Rightarrow> ('px, 'd) sys" where
  "step pf (Write ts f) s = s\<lparr>shared := write_frame ts f (shared s)\<rparr>"
| "step pf ClearRunning s = s\<lparr>self := (self s)\<lparr>w_running := False\<rparr>\<rparr>"
| "step pf (Tick now) s = watch_step pf now s"

fun exec :: "('px, 'e, 'd) frame_method \<Rightarrow> 'px event list \<Rightarrow> ('px, 'd) sys \<Rightarrow> ('px, 'd) sys" where
  "exec pf [] s = s"
| "exec pf (ev # evs) s = exec pf evs (step pf ev s)"

definition thread_pc :: "('px, 'd) sys \<Rightarrow> pc option" where
  "thread_pc s = map_option fst (w_thread (self s))"

text \<open>
  \<^verbatim>\<open>Thread.join\<close>: the caller waits until the lifecycle thread has left \<^verbatim>\<open>_watch\<close>; the
  result is \<open>None\<close> when that never happens.
\<close>

definition join ::
  "('px, 'e, 'd) frame_method \<Rightarrow> timestamp \<Rightarrow> ('px, 'd) sys \<Rightarrow> ('px, 'd) sys option" where
  "join pf now s = while_option (\<lambda>s. thread_pc s \<noteq> Some Exited) (watch_step pf now) s"

text \<open>
  \<^verbatim>\<open>stop\<close>. \<^verbatim>\<open>self._thread.join()\<close> raises \<^verbatim>\<open>AttributeError\<close> when \<^verbatim>\<open>self._thread\<close> is
  \<^verbatim>\<open>None\<close>. The result is \<open>None\<close> when \<^verbatim>\<open>stop\<close> never returns.
\<close>

definition stop ::
  "('px, 'e, 'd) frame_method \<Rightarrow> timestamp \<Rightarrow> ('px, 'd) sys
     \<Rightarrow> ((error + unit) \<times> ('px, 'd) sys) option" where
  "stop pf now s =
     (let s1 = s\<lparr>self := (self s)\<lparr>w_running := False\<rparr>\<rparr> in
      case w_thread (self s1) of
        None \<Rightarrow> Some (Inl AttributeError, s1)
      | Some th \<Rightarrow>
          (case join pf now s1 of
             None \<Rightarrow> None
           | Some s2 \<Rightarrow>
               Some (Inr (), s2\<lparr>logger := logger s2 @ [Info (''Stopped '' @ w_name (self s2))]\<rparr>)))"

text \<open>
  What the loop needs of an implementation of \<^verbatim>\<open>process_frame\<close>: it leaves the cursor,
  the running flag, the thread and \<^verbatim>\<open>_prev_timestamp\<close> of the watcher alone, as the base
  class does. The other predicate, \<open>contract_total\<close>, says that it never raises.
\<close>

definition contract_frame :: "('px, 'e, 'd) frame_method \<Rightarrow> bool" where
  "contract_frame pf \<longleftrightarrow>
     (\<forall>now ts f w. w_frame_index (snd (pf now ts f w)) = w_frame_index w
        \<and> w_running (snd (pf now ts f w)) = w_running w
        \<and> w_thread (snd (pf now ts f w)) = w_thread w
        \<and> w_prev_timestamp (snd (pf now ts f w)) = w_prev_timestamp w)"

definition contract_total :: "('px, 'e, 'd) frame_method \<Rightarrow> bool" where
  "contract_total pf \<longleftrightarrow> (\<forall>now ts f w. \<exists>r. fst (pf now ts f w) = Inr r)"

text \<open>The lifecycle thread does not run: it was never started, or it has left \<^verbatim>\<open>_watch\<close>.\<close>

definition finished :: "('px, 'd) sys \<Rightarrow> bool" where
  "finished s \<longleftrightarrow> thread_pc s = None \<or> thread_pc s = Some Exited"

text \<open>
  The thread is in the catch-up loop and its condition holds:
  \<^verbatim>\<open>self._frame_index != self._buffer.frame_index and self._running\<close>.
\<close>

definition catching_up :: "('px, 'd) sys \<Rightarrow> bool" where
  "catching_up s \<longleftrightarrow>
     thread_pc s = Some AtInner
     \<and> w_frame_index (self s) \<noteq> frame_index (shared s) \<and> w_running (self s)"

definition next_slot :: "('px, 'd) sys \<Rightarrow> nat" where
  "next_slot s = (w_frame_index (self s) + 1) mod buffer_len (shared s)"

subsection \<open>Producer and consumer together\<close>

text \<open>The producer writes the frames of a list, oldest first.\<close>

definition writes :: "(timestamp \<times> 'px) list \<Rightarrow> 'px frame_buffer \<Rightarrow> 'px frame_buffer" where
  "writes ws fb = foldl (\<lambda>fb (ts, f). write_frame ts f fb) fb ws"

text \<open>
  The producer writes \<open>ws\<close>, then the lifecycle thread takes one step at each clock
  reading of \<open>nows\<close>: the writes that occur between two checks, and the check.
\<close>

definition catch_up ::
  "('px, 'e, 'd) frame_method \<Rightarrow> (timestamp \<times> 'px) list \<Rightarrow> timestamp list
     \<Rightarrow> ('px, 'd) sys \<Rightarrow> ('px, 'd) sys" where
  "catch_up pf ws nows s = exec pf (map (\<lambda>(ts, f). Write ts f) ws @ map Tick nows) s"

text \<open>
  The distance from the cursor \<open>c\<close> forward to the write cursor \<open>w\<close> on a ring of \<open>N\<close>
  slots, the \<open>m\<close> slots that follow \<open>c\<close>, and the frames that a list of slots holds.
\<close>

definition lag :: "nat \<Rightarrow> nat \<Rightarrow> nat \<Rightarrow> nat" where
  "lag N c w = (w + N - c) mod N"

definition slots_after :: "nat \<Rightarrow> nat \<Rightarrow> nat \<Rightarrow> nat list" where
  "slots_after N c m = map (\<lambda>i. (c + i) mod N) [1..<Suc m]"

definition slot_frames :: "'px frame_buffer \<Rightarrow> nat list \<Rightarrow> (timestamp \<times> 'px) list" where
  "slot_frames fb idxs =
     concat (map (\<lambda>i. case buffer fb ! i of None \<Rightarrow> [] | Some x \<Rightarrow> [x]) idxs)"

subsection \<open>Frames as objects\<close>

text \<open>
  A frame is a numpy array, an object that the drawing primitives of OpenCV change in
  place. To see which array \<^verbatim>\<open>process_frame\<close> draws on, frames are here references into a
  store of arrays: an address is an index of the store, and a new array goes to its end.
  \<^verbatim>\<open>np.array(frame)\<close> makes a new array with the pixels of its argument (\<^verbatim>\<open>copy=True\<close> is the
  default); \<^verbatim>\<open>cv2.circle\<close> and \<^verbatim>\<open>cv2.putText\<close> write the array they are given and return it.
\<close>

type_synonym addr = nat

type_synonym 'px store = "'px list"

definition np_array :: "addr \<Rightarrow> 'px store \<Rightarrow> addr \<times> 'px store" where
  "np_array a st = (length st, st @ [st ! a])"

definition cv2_circle ::
  "'px cv2 \<Rightarrow> (int \<times> int) \<Rightarrow> int \<Rightarrow> colour \<Rightarrow> int \<Rightarrow> addr \<Rightarrow> 'px store \<Rightarrow> addr \<times> 'px store" where
  "cv2_circle cv centre radius col thickness a st =
     (a, st[a := circle cv centre radius col thickness (st ! a)])"

definition cv2_putText ::
  "'px cv2 \<Rightarrow> overlay_text \<Rightarrow> (int \<times> int) \<Rightarrow> rat \<Rightarrow> colour \<Rightarrow> int \<Rightarrow> addr \<Rightarrow> 'px store
     \<Rightarrow> addr \<times> 'px store" where
  "cv2_putText cv text origin scale col thickness a st =
     (a, st[a := putText cv text origin scale col thickness (st ! a)])"

text \<open>A method of the watcher on references: it also takes and returns the store.\<close>

type_synonym ('px, 'e, 'd) custom_ref =
  "timestamp \<Rightarrow> addr \<Rightarrow> 'd watcher_scheme \<times> 'px store
     \<Rightarrow> (error + addr \<times> 'e list option) \<times> ('d watcher_scheme \<times> 'px store)"

text \<open>\<^verbatim>\<open>_custom_processing\<close> of the base class returns the reference it was given.\<close>

definition custom_processing_ref :: "('px, 'e, 'd) custom_ref" where
  "custom_processing_ref timestamp frame ws =
     (let events = [] in (Inr (frame, Some events), ws))"

text \<open>
  \<^verbatim>\<open>process_frame\<close> on references, statement by statement: the copy is made first, and
  \<^verbatim>\<open>processed_frame = frame\<close> makes \<open>processed_frame\<close> another name of the copy.
\<close>

definition process_frame_ref ::
  "'px cv2 \<Rightarrow> ('px, 'e, 'd) custom_ref \<Rightarrow> timestamp \<Rightarrow> timestamp \<Rightarrow> addr
     \<Rightarrow> 'd watcher_scheme \<times> 'px store
     \<Rightarrow> (error + addr \<times> 'e list option) \<times> ('d watcher_scheme \<times> 'px store)" where
  "process_frame_ref cv custom now timestamp frame0 ws =
     (let (w, st) = ws;
          (frame, st1) = np_array frame0 st;
          time_delta = total_seconds (timestamp - w_prev_timestamp w) in
      case track_fps now w of
        (Inl ex, w1) \<Rightarrow> (Inl ex, (w1, st1))
      | (Inr fps, w1) \<Rightarrow>
          (let text = (w_name w1, fps);
               processed_frame = frame;
               color_index = 0;
               radius = 4;
               (processed_frame, st2) =
                 cv2_circle cv (8, 12) radius
                   (10 + 10 * color_index, 40 + 30 * color_index, 200) 2 processed_frame st1;
               origin = (17, 16);
               text_color = (150, 120, 50);
               (processed_frame, st3) =
                 cv2_putText cv text origin (w_text_size w1) text_color 1 processed_frame st2
           in custom timestamp processed_frame (w1, st3)))"

subsection \<open>The synchronous driver\<close>

text \<open>
  The script \<^verbatim>\<open>demo.py\<close>. Its settings are module-level variables: the fields below are
  those that the main loop reads (\<^verbatim>\<open>sleep_time\<close> only delays the loop).
\<close>

record config =
  skip_count :: nat
  save_frames :: bool
  save_loc :: string
  write_processed_movie :: bool

text \<open>
  What the loop calls outside the repository's sources: \<^verbatim>\<open>cv2.resize\<close> with the scale
  factor, and the two methods of the object tracker, which may draw on the processed
  frame they are given and change the tracker.
\<close>

record ('px, 'e, 't) collaborators =
  resize :: "'px \<Rightarrow> 'px"
  update_detection_events :: "'px \<Rightarrow> 'e list option \<Rightarrow> 't \<Rightarrow> 'px \<times> 't"
  collision_detect :: "'px \<Rightarrow> 't \<Rightarrow> 'px \<times> 't"

text \<open>
  One frame of the source, with what the loop would observe if it keeps the frame:
  \<^verbatim>\<open>datetime.now()\<close> in the loop, \<^verbatim>\<open>datetime.now()\<close> inside \<^verbatim>\<open>_track_fps\<close>, and whether the
  key read by \<^verbatim>\<open>cv2.waitKey\<close> is \<^verbatim>\<open>q\<close>. The source is the list of its frames; \<^verbatim>\<open>cap.read()\<close>
  returns \<^verbatim>\<open>(False, None)\<close> once the list is exhausted, and \<^verbatim>\<open>cap.isOpened()\<close> stays true.
  The frame that the script reads before the loop, to print its size, is not in the list.
\<close>

record 'px reading =
  rd_frame :: 'px
  rd_now :: timestamp
  rd_fps_now :: timestamp
  rd_key_q :: bool

text \<open>A file on disk: an image written by \<^verbatim>\<open>cv2.imwrite\<close>, or events dumped as JSON.\<close>

datatype ('px, 'e) file_content = Jpeg 'px | Json "'e list"

fun is_json :: "string \<times> ('px, 'e) file_content \<Rightarrow> bool" where
  "is_json (name, Json evs) = True"
| "is_json (name, Jpeg px) = False"

text \<open>
  The variables of the script that the loop changes, and its outputs: \<open>detection_events\<close>
  is the \<^verbatim>\<open>OrderedDict\<close>, \<open>disk\<close> the files written, \<open>movie\<close> the frames given to the video
  writer, \<open>window\<close> the frames shown by \<^verbatim>\<open>cv2.imshow\<close>.
\<close>

record ('px, 'e, 'd, 't) driver =
  framecount :: nat
  lastframe_time :: timestamp
  skip_counter :: nat
  watcher :: "'d watcher_scheme"
  tracker :: 't
  detection_events :: "(nat \<times> 'e list) list"
  disk :: "(string \<times> ('px, 'e) file_content) list"
  movie :: "'px list"
  window :: "'px list"

text \<open>\<^verbatim>\<open>'{}'.format(n)\<close> for a natural number: its decimal digits.\<close>

function str_nat :: "nat \<Rightarrow> string" where
  "str_nat n =
     (if n < 10 then [''0123456789'' ! n]
      else str_nat (n div 10) @ [''0123456789'' ! (n mod 10)])"
  by pat_completeness auto
termination
  by (relation "measure id") auto

declare str_nat.simps [simp del]

definition save_frame ::
  "'px \<Rightarrow> string \<Rightarrow> string \<Rightarrow> ('px, 'e, 'd, 't) driver \<Rightarrow> ('px, 'e, 'd, 't) driver" where
  "save_frame frame fname path st =
     (let filename = path @ ''/'' @ fname in st\<lparr>disk := disk st @ [(filename, Jpeg frame)]\<rparr>)"

definition save_metadata ::
  "'e list \<Rightarrow> string \<Rightarrow> string \<Rightarrow> ('px, 'e, 'd, 't) driver \<Rightarrow> ('px, 'e, 'd, 't) driver" where
  "save_metadata events fname path st =
     (let filename = path @ ''/'' @ fname in st\<lparr>disk := disk st @ [(filename, Json events)]\<rparr>)"

definition save_metadata_and_frame ::
  "'px \<Rightarrow> 'e list \<Rightarrow> string \<Rightarrow> string \<Rightarrow> ('px, 'e, 'd, 't) driver
     \<Rightarrow> ('px, 'e, 'd, 't) driver" where
  "save_metadata_and_frame frame events fname_base path st =
     (let fname_frame = fname_base @ ''.jpeg'';
          fname_meta = fname_base @ ''.json''
      in save_metadata events fname_meta path (save_frame frame fname_frame path st))"

text \<open>How the loop ends: the source is exhausted, the key \<^verbatim>\<open>q\<close> was hit, or an exception.\<close>

datatype outcome = Exhausted | Interrupted | Crashed error

text \<open>
  The body of the loop for a frame that was read and kept (the branch \<^verbatim>\<open>ret == True\<close>). The
  result is \<open>None\<close> when the loop goes on. \<^verbatim>\<open>1.0/td\<close> raises when the clock has not moved
  since the last kept frame; the assignment to \<^verbatim>\<open>lastframe_time\<close> precedes it.
\<close>

definition loop_body ::
  "config \<Rightarrow> ('px, 'e, 't) collaborators \<Rightarrow> ('px, 'e, 'd) frame_method \<Rightarrow> 'px reading
     \<Rightarrow> ('px, 'e, 'd, 't) driver \<Rightarrow> outcome option \<times> ('px, 'e, 'd, 't) driver" where
  "loop_body cfg env pf rd st0 =
     (let st = st0\<lparr>framecount := framecount st0 + 1\<rparr>;
          frame = resize env (rd_frame rd);
          now = rd_now rd;
          td = total_seconds (now - lastframe_time st);
          st = st\<lparr>lastframe_time := now\<rparr>
      in
        if td = 0 then (Some (Crashed ZeroDivisionError), st)
        else
          (case pf (rd_fps_now rd) now frame (watcher st) of
             (Inl ex, w) \<Rightarrow> (Some (Crashed ex), st\<lparr>watcher := w\<rparr>)
           | (Inr (processed_frame, events), w) \<Rightarrow>
               (let st = st\<lparr>watcher := w\<rparr>;
                    (processed_frame, trk) =
                      update_detection_events env processed_frame events (tracker st);
                    (processed_frame, trk) = collision_detect env processed_frame trk;
                    st = st\<lparr>tracker := trk\<rparr>;
                    st =
                      (if save_frames cfg \<and> events \<noteq> None \<and> length (the events) > 0 then
                         (let fname = ''frame_'' @ str_nat (framecount st) @ ''.jpeg'';
                              st = save_frame frame fname (save_loc cfg) st;
                              fname_bb = ''frame_'' @ str_nat (framecount st) @ ''.bb.jpeg'';
                              st = save_frame processed_frame fname_bb (save_loc cfg) st
                          in st\<lparr>detection_events :=
                                  AList.update (framecount st) (the events)
                                    (detection_events st)\<rparr>)
                       else st);
                    st =
                      (if write_processed_movie cfg
                       then st\<lparr>movie := movie st @ [processed_frame]\<rparr> else st);
                    st = st\<lparr>window := window st @ [processed_frame]\<rparr>
                in if rd_key_q rd then (Some Interrupted, st) else (None, st))))"

text \<open>
  The processed frame and the tracker after the two calls of the tracker, which
  \<open>loop_body\<close> makes one after the other.
\<close>

definition annotated :: "('px, 'e, 't) collaborators \<Rightarrow> 'px \<Rightarrow> 'e list option \<Rightarrow> 't \<Rightarrow> 'px \<times> 't" where
  "annotated env p events trk =
     (case update_detection_events env p events trk of (p1, t1) \<Rightarrow> collision_detect env p1 t1)"

text \<open>
  The main loop: read, count, skip while the counter is below \<^verbatim>\<open>skip_count\<close>, else reset
  the counter and handle the frame, or stop when there was none. The test of the counter
  comes before the test of \<^verbatim>\<open>ret\<close>, so the loop also counts the reads after the end of the
  source.
\<close>

function main_loop ::
  "config \<Rightarrow> ('px, 'e, 't) collaborators \<Rightarrow> ('px, 'e, 'd) frame_method \<Rightarrow> 'px reading list
     \<Rightarrow> ('px, 'e, 'd, 't) driver \<Rightarrow> outcome \<times> ('px, 'e, 'd, 't) driver" where
  "main_loop cfg env pf [] st =
     (if skip_counter st + 1 < skip_count cfg
      then main_loop cfg env pf [] (st\<lparr>skip_counter := skip_counter st + 1\<rparr>)
      else (Exhausted, st\<lparr>skip_counter := 0\<rparr>))"
| "main_loop cfg env pf (rd # src) st =
     (if skip_counter st + 1 < skip_count cfg
      then main_loop cfg env pf src (st\<lparr>skip_counter := skip_counter st + 1\<rparr>)
      else
        (case loop_body cfg env pf rd (st\<lparr>skip_counter := 0\<rparr>) of
           (Some out, st1) \<Rightarrow> (out, st1)
         | (None, st1) \<Rightarrow> main_loop cfg env pf src st1))"
  by pat_completeness auto
termination
  by (relation "measures [\<lambda>(cfg, env, pf, src, st). length src,
                          \<lambda>(cfg, env, pf, src, st). skip_count cfg - skip_counter st]")
    auto

declare main_loop.simps [simp del]

text \<open>
  The frames of a source that the skip counter lets through, when it starts at \<open>c\<close> and
  keeps a frame each time it reaches \<open>S\<close>.
\<close>

fun kept :: "nat \<Rightarrow> nat \<Rightarrow> 'a list \<Rightarrow> 'a list" where
  "kept S c [] = []"
| "kept S c (x # xs) = (if c + 1 < S then kept S (c + 1) xs else x # kept S 0 xs)"

subsection \<open>A concrete watcher\<close>

text \<open>Concrete inputs, on which the theorems below are exercised.\<close>

text \<open>
  Stand-ins for the two drawing primitives on frames that are strings: the circle appends
  a mark, the text appends the name of the watcher.
\<close>

definition example_cv2 :: "string cv2" where
  "example_cv2 =
     \<lparr> circle = (\<lambda>centre radius col thickness img. img @ ''o''),
       putText = (\<lambda>text origin scale col thickness img. img @ fst text) \<rparr>"

text \<open>A buffer of three slots, all empty, with the write cursor on slot 0.\<close>

definition example_buffer :: "string frame_buffer" where
  "example_buffer = \<lparr> buffer = [None, None, None], buffer_len = 3, frame_index = 0, frame_count = 0 \<rparr>"

text \<open>A watcher of the base class on that buffer, constructed and started.\<close>

definition example_sys :: "(string, unit) sys" where
  "example_sys =
     run 0 0 \<lparr> self = init ''W'' False None 0 0, shared = example_buffer,
               logger = [], screen = [], dispatched = [] \<rparr>"

text \<open>A detector variant whose \<^verbatim>\<open>_custom_processing\<close> raises on the frame with timestamp 42.\<close>

definition failing_custom ::
  "timestamp \<Rightarrow> 'px \<Rightarrow> 'd watcher_scheme \<Rightarrow> (error + ('px, 'e) frame_result) \<times> 'd watcher_scheme" where
  "failing_custom timestamp frame w =
     (if timestamp = 42 then (Inl (DetectorError ''frame 42''), w)
      else custom_processing timestamp frame w)"

text \<open>A variant that overrides \<^verbatim>\<open>process_frame\<close> itself, without telemetry or overlay.\<close>

definition bare_process_frame :: "(string, string, unit) frame_method" where
  "bare_process_frame now timestamp frame w = custom_processing timestamp frame w"

text \<open>\<^verbatim>\<open>process_frame\<close> of the base class, with the stand-in primitives.\<close>

definition example_process_frame :: "(string, string, unit) frame_method" where
  "example_process_frame = process_frame example_cv2 custom_processing"

text \<open>\<^verbatim>\<open>process_frame\<close> of the failing variant.\<close>

definition failing_process_frame :: "(string, string, unit) frame_method" where
  "failing_process_frame = process_frame example_cv2 failing_custom"

text \<open>The producer has written one frame and the thread has entered the catch-up loop.\<close>

definition example_full :: "(string, unit) sys" where
  "example_full = exec example_process_frame [Write 1 ''a'', Tick 10] example_sys"

text \<open>The write cursor is two slots ahead and nothing was written: the buffer is not warmed up.\<close>

definition example_cold :: "(string, unit) sys" where
  "example_cold =
     exec example_process_frame [Tick 10]
       (example_sys\<lparr>shared := example_buffer\<lparr>frame_index := 2\<rparr>\<rparr>)"

text \<open>The producer has written frame 42 and the thread of the failing variant is in the catch-up loop.\<close>

definition example_failing :: "(string, unit) sys" where
  "example_failing = exec failing_process_frame [Write 42 ''x'', Tick 10] example_sys"

text \<open>A detector variant that reports one event on every frame.\<close>

definition detecting_custom ::
  "timestamp \<Rightarrow> string \<Rightarrow> unit watcher_scheme
     \<Rightarrow> (error + (string, string) frame_result) \<times> unit watcher_scheme" where
  "detecting_custom timestamp frame w = (Inr (frame, Some [''person'']), w)"

text \<open>\<^verbatim>\<open>process_frame\<close> of the detecting variant.\<close>

definition detecting_process_frame :: "(string, string, unit) frame_method" where
  "detecting_process_frame = process_frame example_cv2 detecting_custom"


text \<open>
  Stand-ins for the collaborators of the driver: no rescaling, a tracker that counts its
  updates and draws nothing.
\<close>

definition example_env :: "(string, string, nat) collaborators" where
  "example_env =
     \<lparr> resize = (\<lambda>frame. frame),
       update_detection_events = (\<lambda>frame events trk. (frame, Suc trk)),
       collision_detect = (\<lambda>frame trk. (frame, trk)) \<rparr>"

text \<open>The settings of the script for its second video, with \<^verbatim>\<open>skip_count = 5\<close>.\<close>

definition example_config :: config where
  "example_config =
     \<lparr> skip_count = 5, save_frames = False, save_loc = ''../captures/'',
       write_processed_movie = False \<rparr>"

text \<open>The variables of the script before the loop, with a watcher of the base class.\<close>

definition example_driver :: "(string, string, unit, nat) driver" where
  "example_driver =
     \<lparr> framecount = 0, lastframe_time = 0, skip_counter = 0,
       watcher = init ''W'' False None 0 0, tracker = 0, detection_events = [],
       disk = [], movie = [], window = [] \<rparr>"

text \<open>A frame of the source, read at the given time, without a key.\<close>

definition example_reading :: "string \<Rightarrow> timestamp \<Rightarrow> string reading" where
  "example_reading frame now =
     \<lparr> rd_frame = frame, rd_now = now, rd_fps_now = now + 1, rd_key_q = False \<rparr>"

text \<open>A source of ten frames.\<close>

definition example_source :: "string reading list" where
  "example_source =
     [example_reading ''f1'' 100, example_reading ''f2'' 200, example_reading ''f3'' 300,
      example_reading ''f4'' 400, example_reading ''f5'' 500, example_reading ''f6'' 600,
      example_reading ''f7'' 700, example_reading ''f8'' 800, example_reading ''f9'' 900,
      example_reading ''f10'' 1000]"

text \<open>A watcher of the base class on the buffer of three slots, constructed and not started.\<close>

definition example_new :: "(string, unit) sys" where
  "example_new =
     \<lparr> self = init ''W'' False None 0 0, shared = example_buffer,
       logger = [], screen = [], dispatched = [] \<rparr>"

section \<open>FPS telemetry: proofs\<close>

lemma track_fps_mid_window:
  "w_fps_counter w + 1 \<noteq> FPS_FRAMES \<Longrightarrow>
   track_fps now w = (Inr (w_fps w), w\<lparr>w_fps_counter := w_fps_counter w + 1\<rparr>)"
  by (simp add: track_fps_def Let_def)

lemma track_fps_window_end:
  "w_fps_counter w + 1 = FPS_FRAMES \<Longrightarrow> now \<noteq> w_fps_time w \<Longrightarrow>
   track_fps now w =
     (Inr (of_nat FPS_FRAMES / total_seconds (now - w_fps_time w)),
      w\<lparr>w_fps_counter := 0,
        w_fps := of_nat FPS_FRAMES / total_seconds (now - w_fps_time w),
        w_fps_time := now\<rparr>)"
  by (simp add: track_fps_def Let_def total_seconds_def)

lemma track_fps_raises:
  "w_fps_counter w + 1 = FPS_FRAMES \<Longrightarrow> now = w_fps_time w \<Longrightarrow>
   track_fps now w = (Inl ZeroDivisionError, w\<lparr>w_fps_counter := FPS_FRAMES\<rparr>)"
  by (simp add: track_fps_def Let_def total_seconds_def)

lemma track_fps_seq_mid_window:
  "w_fps_counter w + length nows < FPS_FRAMES \<Longrightarrow>
   track_fps_seq nows w =
     (Inr (replicate (length nows) (w_fps w)),
      w\<lparr>w_fps_counter := w_fps_counter w + length nows\<rparr>)"
proof (induction nows arbitrary: w)
  case Nil
  show ?case by simp
next
  case (Cons now nows)
  from Cons.prems have mid: "w_fps_counter w + 1 \<noteq> FPS_FRAMES"
    by simp
  let ?w1 = "w\<lparr>w_fps_counter := w_fps_counter w + 1\<rparr>"
  from Cons.prems have "w_fps_counter ?w1 + length nows < FPS_FRAMES"
    by simp
  from Cons.IH [OF this] show ?case
    by (simp add: track_fps_mid_window [OF mid])
qed

lemma track_fps_seq_append:
  "track_fps_seq xs w = (Inr fs, w1) \<Longrightarrow>
   track_fps_seq (xs @ ys) w =
     (case track_fps_seq ys w1 of
        (Inl e, w2) \<Rightarrow> (Inl e, w2)
      | (Inr gs, w2) \<Rightarrow> (Inr (fs @ gs), w2))"
proof (induction xs arbitrary: w fs)
  case Nil
  then show ?case by (simp split: prod.splits sum.splits)
next
  case (Cons x xs)
  then show ?case
    by (auto split: prod.splits sum.splits)
qed

lemma track_fps_counter_mod:
  "track_fps now w = (Inr f, w1) \<Longrightarrow> w_fps_counter w < FPS_FRAMES \<Longrightarrow>
   w_fps_counter w1 = (w_fps_counter w + 1) mod FPS_FRAMES"
  by (auto simp: track_fps_def Let_def FPS_FRAMES_def split: if_splits)

lemma track_fps_seq_counter_mod:
  "track_fps_seq nows w = (Inr fs, w1) \<Longrightarrow> w_fps_counter w < FPS_FRAMES \<Longrightarrow>
   w_fps_counter w1 = (w_fps_counter w + length nows) mod FPS_FRAMES"
proof (induction nows arbitrary: w fs)
  case Nil
  then show ?case by simp
next
  case (Cons now nows)
  from Cons.prems(1) obtain f wa fs' where
    step: "track_fps now w = (Inr f, wa)" and rest: "track_fps_seq nows wa = (Inr fs', w1)"
    by (auto split: prod.splits sum.splits)
  from track_fps_counter_mod [OF step Cons.prems(2)]
  have c: "w_fps_counter wa = (w_fps_counter w + 1) mod FPS_FRAMES" .
  then have "w_fps_counter wa < FPS_FRAMES"
    by (simp add: FPS_FRAMES_def)
  from Cons.IH [OF rest this] c show ?case
    by (simp add: mod_add_left_eq)
qed

text \<open>With a clock that moves forward the division never raises.\<close>

lemma track_fps_returns:
  "w_fps_time w < now \<Longrightarrow>
   \<exists>f w1. track_fps now w = (Inr f, w1) \<and> w_fps_time w1 \<le> now"
  by (simp add: track_fps_def Let_def total_seconds_def)

lemma track_fps_seq_returns:
  "sorted_wrt (<) (w_fps_time w # nows) \<Longrightarrow> \<exists>fs w1. track_fps_seq nows w = (Inr fs, w1)"
proof (induction nows arbitrary: w)
  case Nil
  show ?case by simp
next
  case (Cons now nows)
  from Cons.prems have "w_fps_time w < now"
    by simp
  from track_fps_returns [OF this] obtain f wa where
    step: "track_fps now w = (Inr f, wa)" and le: "w_fps_time wa \<le> now"
    by blast
  from Cons.prems le have "sorted_wrt (<) (w_fps_time wa # nows)"
    by auto
  from Cons.IH [OF this] obtain fs w1 where "track_fps_seq nows wa = (Inr fs, w1)"
    by blast
  with step show ?case by simp
qed

text \<open>
  Claim C5. The frame rate is recomputed as \<open>FPS_FRAMES / elapsed seconds\<close> on the call
  that completes a window of \<open>FPS_FRAMES = 20\<close> processed frames, and on no other call:
  a call inside a window returns the stored value and leaves it as it is. The window
  counter after any run of returning calls is the number of calls modulo 20, so the
  recomputation falls on every 20th processed frame. Twenty frames at a fixed interval
  \<open>T > 0\<close> after the start of the window give \<open>20 / (20 \<sqdot> T)\<close>, with \<open>T\<close> in seconds.
  The arithmetic is exact here; Python rounds it to a float.
\<close>

theorem fps_window_recompute:
  "(w_fps_counter w + 1 \<noteq> FPS_FRAMES \<longrightarrow>
      track_fps now w = (Inr (w_fps w), w\<lparr>w_fps_counter := w_fps_counter w + 1\<rparr>))
   \<and> (w_fps_counter w + 1 = FPS_FRAMES \<and> now \<noteq> w_fps_time w \<longrightarrow>
      (\<exists>w1. track_fps now w =
              (Inr (of_nat FPS_FRAMES / total_seconds (now - w_fps_time w)), w1)
          \<and> w_fps w1 = of_nat FPS_FRAMES / total_seconds (now - w_fps_time w)
          \<and> w_fps_time w1 = now \<and> w_fps_counter w1 = 0))
   \<and> (w_fps_counter w = 0 \<and> 0 < T \<longrightarrow>
      (\<exists>w1. track_fps_seq (map (\<lambda>i. w_fps_time w + int i * T) [1..<Suc FPS_FRAMES]) w =
           (Inr (replicate (FPS_FRAMES - 1) (w_fps w)
                 @ [of_nat FPS_FRAMES / (of_nat FPS_FRAMES * total_seconds T)]), w1)
          \<and> w_fps w1 = of_nat FPS_FRAMES / (of_nat FPS_FRAMES * total_seconds T)))
   \<and> (w_fps_counter w < FPS_FRAMES \<and> track_fps_seq nows w = (Inr fs, w2) \<longrightarrow>
        w_fps_counter w2 = (w_fps_counter w + length nows) mod FPS_FRAMES)"
proof (intro conjI impI)
  assume "w_fps_counter w + 1 \<noteq> FPS_FRAMES"
  then show "track_fps now w = (Inr (w_fps w), w\<lparr>w_fps_counter := w_fps_counter w + 1\<rparr>)"
    by (rule track_fps_mid_window)
next
  assume "w_fps_counter w + 1 = FPS_FRAMES \<and> now \<noteq> w_fps_time w"
  then show "\<exists>w1. track_fps now w =
              (Inr (of_nat FPS_FRAMES / total_seconds (now - w_fps_time w)), w1)
          \<and> w_fps w1 = of_nat FPS_FRAMES / total_seconds (now - w_fps_time w)
          \<and> w_fps_time w1 = now \<and> w_fps_counter w1 = 0"
    by (simp add: track_fps_window_end)
next
  assume a: "w_fps_counter w = 0 \<and> 0 < T"
  let ?clock = "\<lambda>i. w_fps_time w + int i * T"
  let ?pre = "map ?clock [1..<FPS_FRAMES]"
  let ?wm = "w\<lparr>w_fps_counter := w_fps_counter w + length ?pre\<rparr>"
  have pre: "track_fps_seq ?pre w = (Inr (replicate (length ?pre) (w_fps w)), ?wm)"
    using a by (intro track_fps_seq_mid_window) (simp add: FPS_FRAMES_def)
  have "[1..<Suc FPS_FRAMES] = [1..<FPS_FRAMES] @ [FPS_FRAMES]"
    by (rule upt_Suc_append) (simp add: FPS_FRAMES_def)
  then have split: "map ?clock [1..<Suc FPS_FRAMES] = ?pre @ [?clock FPS_FRAMES]"
    by simp
  have cnt: "w_fps_counter ?wm + 1 = FPS_FRAMES"
    using a by (simp add: FPS_FRAMES_def)
  have ne: "?clock FPS_FRAMES \<noteq> w_fps_time ?wm"
    using a by (simp add: FPS_FRAMES_def)
  have el: "total_seconds (?clock FPS_FRAMES - w_fps_time ?wm)
      = of_nat FPS_FRAMES * total_seconds T"
    by (simp add: total_seconds_def)
  let ?v = "of_nat FPS_FRAMES / (of_nat FPS_FRAMES * total_seconds T)"
  let ?w1 = "?wm\<lparr>w_fps_counter := 0, w_fps := ?v, w_fps_time := ?clock FPS_FRAMES\<rparr>"
  have last: "track_fps (?clock FPS_FRAMES) ?wm = (Inr ?v, ?w1)"
    using track_fps_window_end [OF cnt ne] unfolding el .
  have "track_fps_seq [?clock FPS_FRAMES] ?wm = (Inr [?v], ?w1)"
    by (simp only: track_fps_seq.simps last prod.case sum.case)
  then have "track_fps_seq (?pre @ [?clock FPS_FRAMES]) w =
      (Inr (replicate (length ?pre) (w_fps w) @ [?v]), ?w1)"
    by (simp only: track_fps_seq_append [OF pre] prod.case sum.case)
  moreover have "length ?pre = FPS_FRAMES - 1"
    by simp
  moreover have "w_fps ?w1 = ?v"
    by simp
  ultimately show "\<exists>w1. track_fps_seq (map ?clock [1..<Suc FPS_FRAMES]) w =
           (Inr (replicate (FPS_FRAMES - 1) (w_fps w)
                 @ [of_nat FPS_FRAMES / (of_nat FPS_FRAMES * total_seconds T)]), w1)
          \<and> w_fps w1 = of_nat FPS_FRAMES / (of_nat FPS_FRAMES * total_seconds T)"
    unfolding split by (intro exI [of _ ?w1]) (simp only: simp_thms)
next
  assume "w_fps_counter w < FPS_FRAMES \<and> track_fps_seq nows w = (Inr fs, w2)"
  then show "w_fps_counter w2 = (w_fps_counter w + length nows) mod FPS_FRAMES"
    by (simp add: track_fps_seq_counter_mod)
qed

theorem fps_window_recompute_witness:
  "w_fps_counter (init ''W'' False None 0 0) + 1 \<noteq> FPS_FRAMES
   \<and> track_fps 10 (init ''W'' False None 0 0)
       = (Inr 0, (init ''W'' False None 0 0)\<lparr>w_fps_counter := 1\<rparr>)
   \<and> w_fps_counter ((init ''W'' False None 0 0)\<lparr>w_fps_counter := 19\<rparr>) + 1 = FPS_FRAMES
   \<and> (2000000::int) \<noteq> w_fps_time ((init ''W'' False None 0 0)\<lparr>w_fps_counter := 19\<rparr>)
   \<and> fst (track_fps 2000000 ((init ''W'' False None 0 0)\<lparr>w_fps_counter := 19\<rparr>)) = Inr 10
   \<and> w_fps_counter (init ''W'' False None 0 0) = 0 \<and> (0::int) < 50000
   \<and> fst (track_fps_seq (map (\<lambda>i. 0 + int i * 50000) [1..<Suc FPS_FRAMES])
            (init ''W'' False None 0 0))
       = Inr (replicate 19 0 @ [20])
   \<and> w_fps_counter (snd (track_fps_seq [10, 20, 30] (init ''W'' False None 0 0))) = 3"
  using
    fps_window_recompute [of "init ''W'' False None 0 0" 10 50000 "[10, 20, 30]" "[0, 0, 0]"
      "snd (track_fps_seq [10, 20, 30] (init ''W'' False None 0 0))"]
    fps_window_recompute [of "(init ''W'' False None 0 0)\<lparr>w_fps_counter := 19\<rparr>" 2000000 1 "[]"
      "[]" "(init ''W'' False None 0 0)\<lparr>w_fps_counter := 19\<rparr>"]
  by (auto simp add: FPS_FRAMES_def init_def track_fps_def Let_def total_seconds_def)

text \<open>
  From construction, the first 19 calls of \<^verbatim>\<open>_track_fps\<close> return the initial value 0,
  whatever the clock reads. With a clock that moves forward every call returns, and after
  any run of returning calls, from construction or from any state with the counter in
  range, \<^verbatim>\<open>_fps_counter\<close> is below \<open>FPS_FRAMES\<close>.
\<close>

lemma fps_zero_before_first_window:
  "(length nows < FPS_FRAMES \<longrightarrow>
      (\<exists>w1. track_fps_seq nows (init name dv dwn t1 t2)
               = (Inr (replicate (length nows) 0), w1)
          \<and> w_fps w1 = 0))
   \<and> (sorted_wrt (<) (t2 # nows) \<longrightarrow>
      (\<exists>fs w1. track_fps_seq nows (init name dv dwn t1 t2) = (Inr fs, w1)))
   \<and> (track_fps_seq nows (init name dv dwn t1 t2) = (Inr fs, w2) \<longrightarrow>
        w_fps_counter w2 < FPS_FRAMES)
   \<and> (w_fps_counter w < FPS_FRAMES \<and> track_fps now w = (Inr f, w3) \<longrightarrow>
        w_fps_counter w3 < FPS_FRAMES)"
proof (intro conjI impI)
  let ?w0 = "init name dv dwn t1 t2"
  have c0: "w_fps_counter ?w0 = 0" and f0: "w_fps ?w0 = 0" and t0: "w_fps_time ?w0 = t2"
    by (simp_all add: init_def)
  {
    assume "length nows < FPS_FRAMES"
    then have "w_fps_counter ?w0 + length nows < FPS_FRAMES"
      by (simp add: c0)
    from track_fps_seq_mid_window [OF this]
    show "\<exists>w1. track_fps_seq nows ?w0 = (Inr (replicate (length nows) 0), w1) \<and> w_fps w1 = 0"
      by (simp add: f0)
  }
  {
    assume "sorted_wrt (<) (t2 # nows)"
    then have "sorted_wrt (<) (w_fps_time ?w0 # nows)"
      by (simp only: t0)
    then show "\<exists>fs w1. track_fps_seq nows ?w0 = (Inr fs, w1)"
      by (rule track_fps_seq_returns)
  }
  {
    assume "track_fps_seq nows ?w0 = (Inr fs, w2)"
    from track_fps_seq_counter_mod [OF this]
    have "w_fps_counter w2 = length nows mod FPS_FRAMES"
      by (simp add: c0 FPS_FRAMES_def)
    then show "w_fps_counter w2 < FPS_FRAMES"
      by (simp add: FPS_FRAMES_def)
  }
  {
    assume a: "w_fps_counter w < FPS_FRAMES \<and> track_fps now w = (Inr f, w3)"
    from track_fps_counter_mod [OF conjunct2 [OF a] conjunct1 [OF a]]
    have "w_fps_counter w3 = (w_fps_counter w + 1) mod FPS_FRAMES" .
    then show "w_fps_counter w3 < FPS_FRAMES"
      by (simp add: FPS_FRAMES_def)
  }
qed

text \<open>
  Claim C10. The reported value is 0 until the 20th processed frame (the lemma above), but
  the counter does not stay in \<open>0..FPS_FRAMES-1\<close> after every call: \<^verbatim>\<open>_track_fps\<close>
  increments the counter before the division and resets it after. With a clock that has
  not moved since construction, the 20th call raises on the division and leaves the
  counter at 20; the next call returns and leaves it at 21.
\<close>

theorem track_fps_counter_leaves_range:
  "track_fps_seq (replicate 19 7 @ [7]) (init ''W'' False None 7 7)
     = (Inl ZeroDivisionError, (init ''W'' False None 7 7)\<lparr>w_fps_counter := 20\<rparr>)
   \<and> \<not> w_fps_counter ((init ''W'' False None 7 7)\<lparr>w_fps_counter := 20\<rparr>) < FPS_FRAMES
   \<and> track_fps 8 ((init ''W'' False None 7 7)\<lparr>w_fps_counter := 20\<rparr>)
     = (Inr 0, (init ''W'' False None 7 7)\<lparr>w_fps_counter := 21\<rparr>)"
proof -
  let ?w = "init ''W'' False None 7 7"
  let ?w19 = "?w\<lparr>w_fps_counter := 19\<rparr>"
  have "w_fps_counter ?w + length (replicate 19 (7::int)) < FPS_FRAMES"
    by (simp add: init_def FPS_FRAMES_def)
  from track_fps_seq_mid_window [OF this]
  have pre: "track_fps_seq (replicate 19 7) ?w = (Inr (replicate 19 0), ?w19)"
    by (simp add: init_def)
  have "track_fps 7 ?w19 = (Inl ZeroDivisionError, ?w\<lparr>w_fps_counter := 20\<rparr>)"
    by (simp add: track_fps_def init_def FPS_FRAMES_def total_seconds_def Let_def)
  then have "track_fps_seq [7] ?w19 = (Inl ZeroDivisionError, ?w\<lparr>w_fps_counter := 20\<rparr>)"
    by simp
  then have "track_fps_seq (replicate 19 7 @ [7]) ?w
      = (Inl ZeroDivisionError, ?w\<lparr>w_fps_counter := 20\<rparr>)"
    by (simp only: track_fps_seq_append [OF pre] prod.case sum.case)
  moreover have "track_fps 8 (?w\<lparr>w_fps_counter := 20\<rparr>)
      = (Inr 0, ?w\<lparr>w_fps_counter := 21\<rparr>)"
    by (simp add: track_fps_def init_def FPS_FRAMES_def Let_def)
  ultimately show ?thesis
    by (simp add: FPS_FRAMES_def)
qed

section \<open>The lifecycle thread: proofs\<close>

lemma watch_body_empty:
  assumes "0 < buffer_len (shared s)"
    and "(w_frame_index (self s) + 1) mod buffer_len (shared s) < length (buffer (shared s))"
    and "buffer (shared s) ! ((w_frame_index (self s) + 1) mod buffer_len (shared s)) = None"
  shows "watch_body pf now s =
    s\<lparr>self := (self s)\<lparr>w_frame_index := (w_frame_index (self s) + 1) mod buffer_len (shared s)\<rparr>\<rparr>"
  using assms by (simp add: watch_body_def Let_def)

lemma watch_body_returns:
  assumes "0 < buffer_len (shared s)"
    and "(w_frame_index (self s) + 1) mod buffer_len (shared s) < length (buffer (shared s))"
    and "buffer (shared s) ! ((w_frame_index (self s) + 1) mod buffer_len (shared s)) = Some (ts, f)"
    and "pf now ts f ((self s)\<lparr>w_frame_index := (w_frame_index (self s) + 1) mod buffer_len (shared s)\<rparr>)
           = (Inr (p, evs), w2)"
  shows "watch_body pf now s =
    s\<lparr>self := w2\<lparr>w_prev_timestamp := ts\<rparr>,
      dispatched := dispatched s @ [(ts, f)],
      screen := (if w_display_video w2 then screen s @ [(w_display_window_name w2, p)] else screen s)\<rparr>"
  using assms by (simp add: watch_body_def Let_def display_video_def)

lemma watch_body_raises:
  assumes "0 < buffer_len (shared s)"
    and "(w_frame_index (self s) + 1) mod buffer_len (shared s) < length (buffer (shared s))"
    and "buffer (shared s) ! ((w_frame_index (self s) + 1) mod buffer_len (shared s)) = Some (ts, f)"
    and "pf now ts f ((self s)\<lparr>w_frame_index := (w_frame_index (self s) + 1) mod buffer_len (shared s)\<rparr>)
           = (Inl ex, w2)"
  shows "watch_body pf now s =
    s\<lparr>self := set_pc Exited w2,
      dispatched := dispatched s @ [(ts, f)],
      logger := logger s @ [ErrorMsg (''Exception caught in '' @ w_name w2), ExceptionTrace ex]\<rparr>"
  using assms by (simp add: watch_body_def Let_def except_handler_def)

lemma watch_step_inner:
  "w_thread (self s) = Some (AtInner, ll) \<Longrightarrow>
   watch_step pf now s =
     (if w_frame_index (self s) \<noteq> frame_index (shared s) \<and> w_running (self s)
      then watch_body pf now s else watch_idle now ll s)"
  by (simp add: watch_step_def)

lemma contract_frameD:
  "contract_frame pf \<Longrightarrow> pf now ts f w = (r, w') \<Longrightarrow>
   w_frame_index w' = w_frame_index w \<and> w_running w' = w_running w \<and> w_thread w' = w_thread w
   \<and> w_prev_timestamp w' = w_prev_timestamp w"
  unfolding contract_frame_def by (metis snd_conv)

lemma watch_body_cursor:
  assumes "0 < buffer_len (shared s)" and "length (buffer (shared s)) = buffer_len (shared s)"
    and "contract_frame pf"
  shows "w_frame_index (self (watch_body pf now s)) = (w_frame_index (self s) + 1) mod buffer_len (shared s)"
proof -
  let ?i = "(w_frame_index (self s) + 1) mod buffer_len (shared s)"
  let ?w1 = "(self s)\<lparr>w_frame_index := ?i\<rparr>"
  from assms have lt: "?i < length (buffer (shared s))" by simp
  show ?thesis
  proof (cases "buffer (shared s) ! ?i")
    case None
    show ?thesis by (simp add: watch_body_empty [OF assms(1) lt None])
  next
    case (Some tf)
    obtain ts f where tf: "tf = (ts, f)" by (cases tf)
    obtain r w2 where pf: "pf now ts f ?w1 = (r, w2)" by (cases "pf now ts f ?w1")
    from contract_frameD [OF assms(3) pf] have c: "w_frame_index w2 = ?i" by simp
    show ?thesis
    proof (cases r)
      case (Inl ex)
      from c show ?thesis
        by (simp add: watch_body_raises [where pf = pf and now = now, OF assms(1) lt Some [unfolded tf] pf [unfolded Inl]]
            set_pc_def)
    next
      case (Inr pe)
      obtain p evs where pe: "pe = (p, evs)" by (cases pe)
      from c show ?thesis
        by (simp add: watch_body_returns
            [where pf = pf and now = now, OF assms(1) lt Some [unfolded tf] pf [unfolded Inr pe]])
    qed
  qed
qed

lemma thread_pc_simps:
  "thread_pc s = Some p \<longleftrightarrow> (\<exists>ll. w_thread (self s) = Some (p, ll))"
  by (auto simp: thread_pc_def)

lemma watch_step_finished:
  "finished s \<Longrightarrow> watch_step pf now s = s"
  by (auto simp: finished_def thread_pc_def watch_step_def split: option.splits)

lemma step_finished:
  "finished s \<Longrightarrow>
   finished (step pf ev s) \<and> dispatched (step pf ev s) = dispatched s
   \<and> logger (step pf ev s) = logger s \<and> screen (step pf ev s) = screen s
   \<and> w_frame_index (self (step pf ev s)) = w_frame_index (self s)"
  by (cases ev) (auto simp: watch_step_finished, auto simp: finished_def thread_pc_def)

lemma exec_finished:
  "finished s \<Longrightarrow>
   finished (exec pf evs s) \<and> dispatched (exec pf evs s) = dispatched s
   \<and> logger (exec pf evs s) = logger s \<and> screen (exec pf evs s) = screen s
   \<and> w_frame_index (self (exec pf evs s)) = w_frame_index (self s)"
proof (induction evs arbitrary: s)
  case Nil
  then show ?case by simp
next
  case (Cons ev evs)
  from step_finished [OF Cons.prems, of pf ev] Cons.IH [of "step pf ev s"]
  show ?case by simp
qed

lemma watch_step_raise:
  assumes inner: "w_thread (self s) = Some (AtInner, last_log)"
    and behind: "w_frame_index (self s) \<noteq> frame_index (shared s)" and running: "w_running (self s)"
    and cap: "0 < buffer_len (shared s)"
    and i: "i = (w_frame_index (self s) + 1) mod buffer_len (shared s)"
    and range: "i < length (buffer (shared s))"
    and slot: "buffer (shared s) ! i = Some (ts, f)"
    and raised: "pf now ts f ((self s)\<lparr>w_frame_index := i\<rparr>) = (Inl ex, w2)"
  shows "logger (watch_step pf now s)
           = logger s @ [ErrorMsg (''Exception caught in '' @ w_name w2), ExceptionTrace ex]
    \<and> dispatched (watch_step pf now s) = dispatched s @ [(ts, f)]
    \<and> finished (watch_step pf now s)
    \<and> (contract_frame pf \<longrightarrow> thread_pc (watch_step pf now s) = Some Exited
          \<and> w_frame_index (self (watch_step pf now s)) = i)
    \<and> (\<forall>evs. dispatched (exec pf evs (watch_step pf now s)) = dispatched s @ [(ts, f)]
          \<and> finished (exec pf evs (watch_step pf now s))
          \<and> logger (exec pf evs (watch_step pf now s)) = logger (watch_step pf now s))"
proof -
  let ?s' = "watch_step pf now s"
  have body: "?s' = s\<lparr>self := set_pc Exited w2,
      dispatched := dispatched s @ [(ts, f)],
      logger := logger s @ [ErrorMsg (''Exception caught in '' @ w_name w2), ExceptionTrace ex]\<rparr>"
    using behind running
    by (simp add: watch_step_inner [OF inner]
        watch_body_raises [where pf = pf and now = now, OF cap range [unfolded i] slot [unfolded i] raised [unfolded i]])
  have fin: "finished ?s'"
    by (cases "w_thread w2") (auto simp: body finished_def thread_pc_def set_pc_def)
  have "thread_pc ?s' = Some Exited \<and> w_frame_index (self ?s') = i" if "contract_frame pf"
    using contract_frameD [OF that raised] inner
    by (simp add: body thread_pc_def set_pc_def)
  moreover have "dispatched (exec pf evs ?s') = dispatched s @ [(ts, f)]
      \<and> finished (exec pf evs ?s') \<and> logger (exec pf evs ?s') = logger ?s'" for evs
    using exec_finished [OF fin, of pf evs] by (simp add: body)
  ultimately show ?thesis
    using fin by (simp add: body)
qed

text \<open>
  Claim C4. The thread is in the catch-up loop, the slot it moves to holds the frame
  \<open>(ts, f)\<close>, and \<^verbatim>\<open>process_frame\<close> raises \<open>ex\<close> on it. Then the step logs the error with
  the name of the watcher and the exception, and the thread has ended. The frame was
  dispatched once, and whatever happens next (writes of the producer, the flag cleared,
  further steps), nothing more is dispatched or logged: no later frame is delivered and
  the failed one is not retried. For an implementation that leaves the cursor alone, the
  cursor stays on the failed slot.
\<close>

theorem error_terminates_watcher:
  assumes "catching_up s"
    and "0 < buffer_len (shared s)"
    and "next_slot s < length (buffer (shared s))"
    and "buffer (shared s) ! next_slot s = Some (ts, f)"
    and "pf now ts f ((self s)\<lparr>w_frame_index := next_slot s\<rparr>) = (Inl ex, w2)"
  shows "logger (watch_step pf now s)
           = logger s @ [ErrorMsg (''Exception caught in '' @ w_name w2), ExceptionTrace ex]
    \<and> dispatched (watch_step pf now s) = dispatched s @ [(ts, f)]
    \<and> finished (watch_step pf now s)
    \<and> (contract_frame pf \<longrightarrow> thread_pc (watch_step pf now s) = Some Exited
          \<and> w_frame_index (self (watch_step pf now s)) = next_slot s)
    \<and> (\<forall>evs. dispatched (exec pf evs (watch_step pf now s)) = dispatched s @ [(ts, f)]
          \<and> finished (exec pf evs (watch_step pf now s))
          \<and> logger (exec pf evs (watch_step pf now s)) = logger (watch_step pf now s))"
proof -
  from assms(1) obtain last_log where
    inner: "w_thread (self s) = Some (AtInner, last_log)"
    and behind: "w_frame_index (self s) \<noteq> frame_index (shared s)"
    and running: "w_running (self s)"
    by (auto simp: catching_up_def thread_pc_simps)
  show ?thesis
    by (rule watch_step_raise [where pf = pf and now = now and i = "next_slot s",
          OF inner behind running assms(2) next_slot_def assms(3-5)])
qed

lemma watch_step_cursor_other:
  "\<not> (thread_pc s = Some AtInner \<and> w_frame_index (self s) \<noteq> frame_index (shared s) \<and> w_running (self s))
   \<Longrightarrow> w_frame_index (self (watch_step pf now s)) = w_frame_index (self s)
     \<and> w_prev_timestamp (self (watch_step pf now s)) = w_prev_timestamp (self s)
     \<and> dispatched (watch_step pf now s) = dispatched s"
  by (auto simp: watch_step_def thread_pc_def set_pc_def watch_idle_def
      split: option.splits pc.splits)

lemma watch_step_cursor:
  assumes cap: "0 < buffer_len (shared s)"
    and len: "length (buffer (shared s)) = buffer_len (shared s)"
    and cf: "contract_frame pf"
    and i: "i = (w_frame_index (self s) + 1) mod buffer_len (shared s)"
    and cu: "cu \<longleftrightarrow> thread_pc s = Some AtInner
          \<and> w_frame_index (self s) \<noteq> frame_index (shared s) \<and> w_running (self s)"
  shows "(cu \<longrightarrow> w_frame_index (self (watch_step pf now s)) = i)
    \<and> (\<not> cu \<longrightarrow> w_frame_index (self (watch_step pf now s)) = w_frame_index (self s))
    \<and> (cu \<and> buffer (shared s) ! i = None \<longrightarrow>
          watch_step pf now s = s\<lparr>self := (self s)\<lparr>w_frame_index := i\<rparr>\<rparr>)
    \<and> (\<forall>ts f r w2. cu \<and> buffer (shared s) ! i = Some (ts, f)
            \<and> pf now ts f ((self s)\<lparr>w_frame_index := i\<rparr>) = (Inr r, w2) \<longrightarrow>
          w_prev_timestamp (self (watch_step pf now s)) = ts
          \<and> dispatched (watch_step pf now s) = dispatched s @ [(ts, f)]
          \<and> thread_pc (watch_step pf now s) = Some AtInner)
    \<and> (w_prev_timestamp (self (watch_step pf now s)) \<noteq> w_prev_timestamp (self s) \<longrightarrow>
          cu
          \<and> (\<exists>f. buffer (shared s) ! i = Some (w_prev_timestamp (self (watch_step pf now s)), f)
                \<and> dispatched (watch_step pf now s)
                    = dispatched s @ [(w_prev_timestamp (self (watch_step pf now s)), f)]))"
proof -
  let ?s' = "watch_step pf now s"
  let ?w1 = "(self s)\<lparr>w_frame_index := i\<rparr>"
  from cap len have range: "i < length (buffer (shared s))"
    by (simp add: i)
  note range' = range [unfolded i]
  have other: "w_frame_index (self ?s') = w_frame_index (self s)
      \<and> w_prev_timestamp (self ?s') = w_prev_timestamp (self s)" if "\<not> cu"
    using watch_step_cursor_other [of s pf now] that by (simp add: cu)
  have body: "?s' = watch_body pf now s" if cu
    using that by (auto simp: cu thread_pc_simps watch_step_inner)
  have adv: "w_frame_index (self ?s') = i" if cu
    by (simp add: body [OF that] watch_body_cursor [OF cap len cf] i)
  have empty: "?s' = s\<lparr>self := ?w1\<rparr>" if cu and "buffer (shared s) ! i = None"
    using watch_body_empty [where pf = pf and now = now, OF cap range' that(2) [unfolded i]]
    by (simp add: body [OF that(1)] i)
  have full: "w_prev_timestamp (self ?s') = ts \<and> dispatched ?s' = dispatched s @ [(ts, f)]
      \<and> thread_pc ?s' = Some AtInner"
    if cu and slot: "buffer (shared s) ! i = Some (ts, f)"
      and ret: "pf now ts f ?w1 = (Inr r, w2)" for ts f r w2
  proof -
    obtain p evs where r: "r = (p, evs)" by (cases r)
    from that(1) have "thread_pc s = Some AtInner"
      by (simp add: cu)
    with contract_frameD [OF cf ret] have "\<exists>ll. w_thread w2 = Some (AtInner, ll)"
      by (simp add: thread_pc_simps)
    then show ?thesis
      by (auto simp: thread_pc_def body [OF that(1)]
          watch_body_returns [where pf = pf and now = now,
            OF cap range' slot [unfolded i] ret [unfolded i r]])
  qed
  have only: "cu \<and> (\<exists>f. buffer (shared s) ! i = Some (w_prev_timestamp (self ?s'), f)
        \<and> dispatched ?s' = dispatched s @ [(w_prev_timestamp (self ?s'), f)])"
    if changed: "w_prev_timestamp (self ?s') \<noteq> w_prev_timestamp (self s)"
  proof -
    from other changed have cu: cu
      by blast
    show ?thesis
    proof (cases "buffer (shared s) ! i")
      case None
      from empty [OF cu None] changed show ?thesis by simp
    next
      case (Some tf)
      obtain ts f where tf: "tf = (ts, f)" by (cases tf)
      obtain r w2 where ret: "pf now ts f ?w1 = (r, w2)" by (cases "pf now ts f ?w1")
      show ?thesis
      proof (cases r)
        case (Inl ex)
        from contract_frameD [OF cf ret] changed have False
          by (simp add: body [OF cu] set_pc_def
              watch_body_raises [where pf = pf and now = now,
                OF cap range' Some [unfolded tf i] ret [unfolded Inl i]])
        then show ?thesis ..
      next
        case (Inr pe)
        from full [OF cu Some [unfolded tf] ret [unfolded Inr]] cu Some tf
        show ?thesis by simp
      qed
    qed
  qed
  from other adv empty full only show ?thesis
    by blast
qed

text \<open>
  Claim C7. One step of the lifecycle thread, on a buffer of \<open>N > 0\<close> slots and with an
  implementation of \<^verbatim>\<open>process_frame\<close> that leaves the cursor alone. In the catch-up loop,
  while the cursor differs from the write cursor (and the watcher runs), the cursor moves
  to the next slot, \<open>(cursor + 1) mod N\<close>; in every other step it stays. An empty slot
  changes nothing but the cursor: no error, nothing dispatched, the thread still in the
  loop. A full slot on which \<^verbatim>\<open>process_frame\<close> returns is dispatched, and its timestamp
  becomes \<^verbatim>\<open>_prev_timestamp\<close>; a step changes \<^verbatim>\<open>_prev_timestamp\<close> in no other case.
\<close>

theorem cursor_advances_one_slot:
  assumes "0 < buffer_len (shared s)"
    and "length (buffer (shared s)) = buffer_len (shared s)"
    and "contract_frame pf"
  shows "(catching_up s \<longrightarrow> w_frame_index (self (watch_step pf now s)) = next_slot s)
    \<and> (\<not> catching_up s \<longrightarrow>
          w_frame_index (self (watch_step pf now s)) = w_frame_index (self s))
    \<and> (catching_up s \<and> buffer (shared s) ! next_slot s = None \<longrightarrow>
          watch_step pf now s = s\<lparr>self := (self s)\<lparr>w_frame_index := next_slot s\<rparr>\<rparr>)
    \<and> (\<forall>ts f r w2. catching_up s \<and> buffer (shared s) ! next_slot s = Some (ts, f)
            \<and> pf now ts f ((self s)\<lparr>w_frame_index := next_slot s\<rparr>) = (Inr r, w2) \<longrightarrow>
          w_prev_timestamp (self (watch_step pf now s)) = ts
          \<and> dispatched (watch_step pf now s) = dispatched s @ [(ts, f)]
          \<and> thread_pc (watch_step pf now s) = Some AtInner)
    \<and> (w_prev_timestamp (self (watch_step pf now s)) \<noteq> w_prev_timestamp (self s) \<longrightarrow>
          catching_up s
          \<and> (\<exists>f. buffer (shared s) ! next_slot s
                    = Some (w_prev_timestamp (self (watch_step pf now s)), f)
                \<and> dispatched (watch_step pf now s)
                    = dispatched s @ [(w_prev_timestamp (self (watch_step pf now s)), f)]))"
  by (rule watch_step_cursor [where s = s and pf = pf and i = "next_slot s"
        and cu = "catching_up s", OF assms next_slot_def catching_up_def])



lemma track_fps_frame:
  "track_fps now w = (r, w1) \<Longrightarrow>
   w_frame_index w1 = w_frame_index w \<and> w_running w1 = w_running w \<and> w_thread w1 = w_thread w
   \<and> w_prev_timestamp w1 = w_prev_timestamp w \<and> w_name w1 = w_name w"
  by (auto simp: track_fps_def Let_def split: if_splits)

lemma process_frame_frame:
  "process_frame cv custom_processing now ts f w = (r, w') \<Longrightarrow>
   w_frame_index w' = w_frame_index w \<and> w_running w' = w_running w \<and> w_thread w' = w_thread w
   \<and> w_prev_timestamp w' = w_prev_timestamp w \<and> w_name w' = w_name w"
proof -
  assume pf: "process_frame cv custom_processing now ts f w = (r, w')"
  obtain r1 w1 where t: "track_fps now w = (r1, w1)" by (cases "track_fps now w")
  from pf t have "w' = w1"
    by (cases r1) (auto simp: process_frame_def custom_processing_def Let_def)
  with track_fps_frame [OF t] show ?thesis by simp
qed

lemma contract_frame_process_frame:
  "contract_frame (process_frame cv custom_processing)"
  unfolding contract_frame_def
  by (metis process_frame_frame prod.collapse)


lemma writes_Nil [simp]: "writes [] fb = fb"
  by (simp add: writes_def)

lemma writes_snoc: "writes (ws @ [(ts, f)]) fb = write_frame ts f (writes ws fb)"
  by (simp add: writes_def)

lemma writes_append: "writes (xs @ ys) fb = writes ys (writes xs fb)"
  by (simp add: writes_def)

lemma write_frame_valid:
  "valid_buffer fb \<Longrightarrow> valid_buffer (write_frame ts f fb)
     \<and> buffer_len (write_frame ts f fb) = buffer_len fb
     \<and> frame_index (write_frame ts f fb) = (frame_index fb + 1) mod buffer_len fb"
  by (simp add: valid_buffer_def write_frame_def Let_def)

lemma writes_valid:
  "valid_buffer fb \<Longrightarrow> valid_buffer (writes ws fb)
     \<and> buffer_len (writes ws fb) = buffer_len fb
     \<and> frame_index (writes ws fb) = (frame_index fb + length ws) mod buffer_len fb"
proof (induction ws rule: rev_induct)
  case Nil
  then show ?case by (simp add: valid_buffer_def)
next
  case (snoc x ws)
  obtain ts f where x: "x = (ts, f)" by (cases x)
  from snoc have v: "valid_buffer (writes ws fb)"
    and l: "buffer_len (writes ws fb) = buffer_len fb"
    and i: "frame_index (writes ws fb) = (frame_index fb + length ws) mod buffer_len fb"
    by simp_all
  from write_frame_valid [OF v, of ts f] l i show ?case
    by (simp add: x writes_snoc mod_Suc_eq)
qed

lemma mod_distinct:
  fixes N :: nat
  assumes "j < k" "k < N"
  shows "(w + j) mod N \<noteq> (w + k) mod N"
proof
  assume "(w + j) mod N = (w + k) mod N"
  then have "(w + k - (w + j)) mod N = 0"
    using assms by (metis add_le_cancel_left less_imp_le_nat mod_eq_dvd_iff_nat dvd_eq_mod_eq_0)
  with assms show False by simp
qed

lemma writes_slots:
  assumes v: "valid_buffer fb" and len: "length ws \<le> buffer_len fb" and j: "j < length ws"
  shows "buffer (writes ws fb) ! (Suc (frame_index fb + j) mod buffer_len fb) = Some (ws ! j)"
  using len j
proof (induction ws rule: rev_induct)
  case Nil
  then show ?case by simp
next
  case (snoc x ws)
  obtain ts f where x: "x = (ts, f)" by (cases x)
  let ?N = "buffer_len fb"
  let ?fb = "writes ws fb"
  from writes_valid [OF v, of ws] have v': "valid_buffer ?fb"
    and l: "buffer_len ?fb = ?N"
    and i: "frame_index ?fb = (frame_index fb + length ws) mod ?N"
    by simp_all
  from v' l have lenb: "length (buffer ?fb) = ?N" and pos: "0 < ?N"
    by (simp_all add: valid_buffer_def)
  have new: "Suc (frame_index ?fb) mod ?N = Suc (frame_index fb + length ws) mod ?N"
    by (simp add: i mod_Suc_eq)
  show ?case
  proof (cases "j = length ws")
    case True
    with pos lenb show ?thesis
      by (simp add: x writes_snoc write_frame_def Let_def l new)
  next
    case False
    with snoc.prems have jl: "j < length ws" and k: "Suc (length ws) \<le> ?N"
      by simp_all
    from jl k have "(Suc (frame_index fb) + j) mod ?N \<noteq> (Suc (frame_index fb) + length ws) mod ?N"
      by (intro mod_distinct) simp_all
    then have "Suc (frame_index fb + j) mod ?N \<noteq> Suc (frame_index fb + length ws) mod ?N"
      by simp
    moreover from snoc.IH jl k
    have "buffer ?fb ! (Suc (frame_index fb + j) mod ?N) = Some (ws ! j)"
      by simp
    ultimately show ?thesis
      using jl by (simp add: x writes_snoc write_frame_def Let_def l new nth_append)
  qed
qed

lemma slot_frames_writes:
  assumes v: "valid_buffer fb" and len: "length ws \<le> buffer_len fb"
  shows "slot_frames (writes ws fb) (slots_after (buffer_len fb) (frame_index fb) (length ws)) = ws"
proof -
  let ?N = "buffer_len fb"
  let ?g = "\<lambda>i. case buffer (writes ws fb) ! i of None \<Rightarrow> [] | Some x \<Rightarrow> [x]"
  have "map (\<lambda>j. ?g (Suc (frame_index fb + j) mod ?N)) [0..<length ws]
      = map (\<lambda>j. [ws ! j]) [0..<length ws]"
    by (rule map_cong) (simp_all add: writes_slots [OF v len])
  moreover have "[1..<Suc (length ws)] = map Suc [0..<length ws]"
    by (simp add: map_Suc_upt)
  ultimately have "map ?g (slots_after ?N (frame_index fb) (length ws))
      = map (\<lambda>j. [ws ! j]) [0..<length ws]"
    by (simp add: slots_after_def comp_def)
  then have "slot_frames (writes ws fb) (slots_after ?N (frame_index fb) (length ws))
      = concat (map (\<lambda>j. [ws ! j]) [0..<length ws])"
    by (simp add: slot_frames_def)
  also have "\<dots> = map (\<lambda>j. ws ! j) [0..<length ws]"
    by (induction ws rule: rev_induct) (simp_all add: nth_append)
  also have "\<dots> = ws"
    by (rule map_nth)
  finally show ?thesis .
qed

lemma slot_frames_writes_overflow:
  assumes v: "valid_buffer fb"
  shows "slot_frames (writes ws fb)
           (slots_after (buffer_len fb) (frame_index fb) (length ws mod buffer_len fb))
         = drop (length ws - length ws mod buffer_len fb) ws"
proof -
  let ?N = "buffer_len fb"
  let ?k = "length ws"
  let ?old = "take (?k - ?k mod ?N) ws"
  let ?new = "drop (?k - ?k mod ?N) ws"
  let ?fb1 = "writes ?old fb"
  from v have pos: "0 < ?N"
    by (simp add: valid_buffer_def)
  have lo: "length ?old = ?k - ?k mod ?N"
    by simp
  have ln: "length ?new = ?k mod ?N"
    by simp
  have "(?k - ?k mod ?N) mod ?N = 0"
    by (simp add: minus_mod_eq_mult_div)
  then have "(frame_index fb + (?k - ?k mod ?N)) mod ?N = frame_index fb mod ?N"
    by (metis add.right_neutral mod_add_right_eq)
  moreover from v have "frame_index fb mod ?N = frame_index fb"
    by (simp add: valid_buffer_def)
  moreover from writes_valid [OF v, of ?old]
  have "frame_index ?fb1 = (frame_index fb + length ?old) mod ?N"
    by (simp only:)
  ultimately have same: "frame_index ?fb1 = frame_index fb"
    by (simp only: lo)
  from writes_valid [OF v, of ?old] have v1: "valid_buffer ?fb1" and l1: "buffer_len ?fb1 = ?N"
    by simp_all
  from pos have "length ?new \<le> buffer_len ?fb1"
    by (simp add: l1 less_imp_le)
  from slot_frames_writes [OF v1 this]
  have "slot_frames (writes ?new ?fb1) (slots_after ?N (frame_index fb) (?k mod ?N)) = ?new"
    by (simp only: l1 same ln)
  moreover have "writes ?new ?fb1 = writes ws fb"
    by (simp add: writes_append [symmetric])
  ultimately show ?thesis
    by simp
qed

lemma lag_zero: "c < N \<Longrightarrow> w < N \<Longrightarrow> lag N c w = 0 \<longleftrightarrow> c = w"
  unfolding lag_def
  by (cases "c \<le> w") (auto simp: mod_if le_mod_geq)

lemma lag_alt: "c < N \<Longrightarrow> w < N \<Longrightarrow> lag N c w = (if c \<le> w then w - c else w + N - c)"
  unfolding lag_def by (auto simp: mod_if le_mod_geq)

lemma lag_step:
  assumes "c < N" "w < N" "c \<noteq> w"
  shows "lag N (Suc c mod N) w = lag N c w - 1"
proof (cases "Suc c < N")
  case True
  with assms show ?thesis
    by (auto simp: lag_alt)
next
  case False
  with assms have "Suc c = N" by simp
  with assms show ?thesis
    by (auto simp: lag_alt)
qed

lemma slots_after_Suc:
  "slots_after N c (Suc m) = (Suc c mod N) # slots_after N (Suc c mod N) m"
proof -
  have "[1..<Suc (Suc m)] = 1 # map Suc [1..<Suc m]"
    by (simp add: map_Suc_upt upt_conv_Cons)
  moreover have "Suc (c + x) mod N = (Suc c mod N + x) mod N" for x
    by (metis add_Suc mod_add_left_eq)
  ultimately show ?thesis
    by (simp add: slots_after_def comp_def del: upt_Suc)
qed

lemma slot_frames_Cons:
  "slot_frames fb (i # idxs)
     = (case buffer fb ! i of None \<Rightarrow> [] | Some x \<Rightarrow> [x]) @ slot_frames fb idxs"
  by (simp add: slot_frames_def)

lemma watch_body_summary:
  assumes v: "valid_buffer (shared s)" and cf: "contract_frame pf"
    and th: "w_thread (self s) = Some (AtInner, ll)" and run: "w_running (self s)"
  shows "(finished (watch_body pf now s) \<and> \<not> contract_total pf)
    \<or> (shared (watch_body pf now s) = shared s
        \<and> w_thread (self (watch_body pf now s)) = Some (AtInner, ll)
        \<and> w_running (self (watch_body pf now s))
        \<and> w_frame_index (self (watch_body pf now s))
            = Suc (w_frame_index (self s)) mod buffer_len (shared s)
        \<and> dispatched (watch_body pf now s)
            = dispatched s
              @ slot_frames (shared s) [Suc (w_frame_index (self s)) mod buffer_len (shared s)])"
proof -
  let ?i = "(w_frame_index (self s) + 1) mod buffer_len (shared s)"
  let ?w1 = "(self s)\<lparr>w_frame_index := ?i\<rparr>"
  from v have cap: "0 < buffer_len (shared s)"
    and lt: "?i < length (buffer (shared s))"
    by (simp_all add: valid_buffer_def)
  show ?thesis
  proof (cases "buffer (shared s) ! ?i")
    case None
    with th run show ?thesis
      by (simp add: watch_body_empty [OF cap lt None] slot_frames_def)
  next
    case (Some tf)
    obtain ts f where tf: "tf = (ts, f)" by (cases tf)
    obtain r w2 where pf: "pf now ts f ?w1 = (r, w2)" by (cases "pf now ts f ?w1")
    note fr = contract_frameD [OF cf pf]
    show ?thesis
    proof (cases r)
      case (Inl ex)
      from fr th have "finished (watch_body pf now s)"
        by (simp add: finished_def thread_pc_def set_pc_def
            watch_body_raises [where pf = pf and now = now, OF cap lt Some [unfolded tf] pf [unfolded Inl]])
      moreover from pf Inl have "\<not> contract_total pf"
        unfolding contract_total_def by (metis Inl_Inr_False fst_conv)
      ultimately show ?thesis by blast
    next
      case (Inr pe)
      obtain p evs where pe: "pe = (p, evs)" by (cases pe)
      from fr th run Some tf show ?thesis
        by (simp add: slot_frames_def
            watch_body_returns [where pf = pf and now = now, OF cap lt Some [unfolded tf] pf [unfolded Inr pe]])
    qed
  qed
qed

lemma exec_append: "exec pf (xs @ ys) s = exec pf ys (exec pf xs s)"
  by (induction xs arbitrary: s) simp_all

lemma exec_writes:
  "exec pf (map (\<lambda>(ts, f). Write ts f) ws) s = s\<lparr>shared := writes ws (shared s)\<rparr>"
proof (induction ws arbitrary: s)
  case Nil
  show ?case by simp
next
  case (Cons x ws)
  obtain ts f where x: "x = (ts, f)" by (cases x)
  show ?case
    by (simp add: x Cons.IH) (simp add: writes_def)
qed

lemma catch_up_inner:
  assumes cf: "contract_frame pf"
  shows "valid_buffer (shared s) \<Longrightarrow> w_thread (self s) = Some (AtInner, ll) \<Longrightarrow>
    w_running (self s) \<Longrightarrow> w_frame_index (self s) < buffer_len (shared s) \<Longrightarrow>
    length nows = lag (buffer_len (shared s)) (w_frame_index (self s)) (frame_index (shared s)) \<Longrightarrow>
    (finished (exec pf (map Tick nows) s) \<and> \<not> contract_total pf)
    \<or> (shared (exec pf (map Tick nows) s) = shared s
        \<and> w_thread (self (exec pf (map Tick nows) s)) = Some (AtInner, ll)
        \<and> w_running (self (exec pf (map Tick nows) s))
        \<and> w_frame_index (self (exec pf (map Tick nows) s)) = frame_index (shared s)
        \<and> dispatched (exec pf (map Tick nows) s)
            = dispatched s
              @ slot_frames (shared s)
                  (slots_after (buffer_len (shared s)) (w_frame_index (self s)) (length nows)))"
proof (induction nows arbitrary: s)
  case Nil
  from Nil.prems have "w_frame_index (self s) = frame_index (shared s)"
    by (simp add: lag_zero valid_buffer_def)
  with Nil.prems show ?case
    by (simp add: slots_after_def slot_frames_def)
next
  case (Cons now nows)
  let ?N = "buffer_len (shared s)"
  let ?c = "w_frame_index (self s)"
  let ?w = "frame_index (shared s)"
  let ?s1 = "watch_body pf now s"
  from Cons.prems have cN: "?c < ?N" and wN: "?w < ?N"
    by (simp_all add: valid_buffer_def)
  from Cons.prems have "lag ?N ?c ?w \<noteq> 0"
    by simp
  with cN wN have behind: "?c \<noteq> ?w"
    by (simp add: lag_zero)
  with Cons.prems have st: "watch_step pf now s = ?s1"
    by (simp add: watch_step_inner)
  from watch_body_summary [OF Cons.prems(1) cf Cons.prems(2,3), of now]
  show ?case
  proof
    assume f: "finished ?s1 \<and> \<not> contract_total pf"
    from exec_finished [OF conjunct1 [OF f], of pf "map Tick nows"] f show ?thesis
      by (simp add: st)
  next
    assume a: "shared ?s1 = shared s \<and> w_thread (self ?s1) = Some (AtInner, ll)
        \<and> w_running (self ?s1) \<and> w_frame_index (self ?s1) = Suc ?c mod ?N
        \<and> dispatched ?s1 = dispatched s @ slot_frames (shared s) [Suc ?c mod ?N]"
    from Cons.prems(5) lag_step [OF cN wN behind]
    have len: "length nows = lag ?N (Suc ?c mod ?N) ?w"
      by simp
    from a Cons.prems(1) cN have p1: "valid_buffer (shared ?s1)"
      and p2: "w_thread (self ?s1) = Some (AtInner, ll)" and p3: "w_running (self ?s1)"
      and p4: "w_frame_index (self ?s1) < buffer_len (shared ?s1)"
      and p5: "length nows = lag (buffer_len (shared ?s1)) (w_frame_index (self ?s1))
                  (frame_index (shared ?s1))"
      by (simp_all add: len valid_buffer_def)
    from Cons.IH [OF p1 p2 p3 p4 p5] a show ?thesis
      by (simp add: st slots_after_Suc [of ?N ?c] slot_frames_Cons slot_frames_def)
  qed
qed

lemma lag_after_writes:
  assumes "w < N"
  shows "lag N w ((w + k) mod N) = k mod N"
proof -
  from assms have "(w + k) mod N + N - w = (w + k) mod N + (N - w)"
    by simp
  then have "lag N w ((w + k) mod N) = ((w + k) mod N + (N - w)) mod N"
    by (simp add: lag_def)
  also have "\<dots> = (w + k + (N - w)) mod N"
    by (simp add: mod_add_left_eq)
  also from assms have "w + k + (N - w) = k + N"
    by simp
  finally show ?thesis by simp
qed

lemma catch_up_pass:
  assumes cf: "contract_frame pf" and v: "valid_buffer (shared s)"
    and th: "w_thread (self s) = Some (AtOuter, ll)" and run: "w_running (self s)"
    and c: "w_frame_index (self s) < buffer_len (shared s)"
    and len: "length mid = lag (buffer_len (shared s)) (w_frame_index (self s)) (frame_index (shared s))"
  shows "(finished (exec pf (Tick t0 # map Tick mid @ [Tick t1]) s) \<and> \<not> contract_total pf)
    \<or> (shared (exec pf (Tick t0 # map Tick mid @ [Tick t1]) s) = shared s
        \<and> thread_pc (exec pf (Tick t0 # map Tick mid @ [Tick t1]) s) = Some AtOuter
        \<and> w_running (self (exec pf (Tick t0 # map Tick mid @ [Tick t1]) s))
        \<and> w_frame_index (self (exec pf (Tick t0 # map Tick mid @ [Tick t1]) s)) = frame_index (shared s)
        \<and> dispatched (exec pf (Tick t0 # map Tick mid @ [Tick t1]) s)
            = dispatched s
              @ slot_frames (shared s)
                  (slots_after (buffer_len (shared s)) (w_frame_index (self s)) (length mid)))"
proof -
  let ?s1 = "s\<lparr>self := set_pc AtInner (self s)\<rparr>"
  let ?s2 = "exec pf (map Tick mid) ?s1"
  let ?s3 = "watch_step pf t1 ?s2"
  have first: "watch_step pf t0 s = ?s1"
    using th run by (simp add: watch_step_def)
  have all: "exec pf (Tick t0 # map Tick mid @ [Tick t1]) s = ?s3"
    by (simp add: exec_append first)
  have p1: "valid_buffer (shared ?s1)" and p2: "w_thread (self ?s1) = Some (AtInner, ll)"
    and p3: "w_running (self ?s1)" and p4: "w_frame_index (self ?s1) < buffer_len (shared ?s1)"
    and p5: "length mid = lag (buffer_len (shared ?s1)) (w_frame_index (self ?s1))
                (frame_index (shared ?s1))"
    using v th run c len by (simp_all add: set_pc_def)
  from catch_up_inner [OF cf p1 p2 p3 p4 p5]
  show ?thesis
  proof
    assume f: "finished ?s2 \<and> \<not> contract_total pf"
    then have "watch_step pf t1 ?s2 = ?s2"
      by (simp add: watch_step_finished)
    with f show ?thesis
      unfolding all by simp
  next
    assume a: "shared ?s2 = shared ?s1 \<and> w_thread (self ?s2) = Some (AtInner, ll)
        \<and> w_running (self ?s2) \<and> w_frame_index (self ?s2) = frame_index (shared ?s1)
        \<and> dispatched ?s2 = dispatched ?s1
            @ slot_frames (shared ?s1)
                (slots_after (buffer_len (shared ?s1)) (w_frame_index (self ?s1)) (length mid))"
    then have "?s3 = watch_idle t1 ll ?s2"
      by (simp add: watch_step_inner)
    with a show ?thesis
      unfolding all by (simp add: watch_idle_def thread_pc_def set_pc_def)
  qed
qed

text \<open>
  Claim C1, as the code has it. A buffer of \<open>N > 0\<close> slots; the watcher runs, its thread waits between two
  checks, and its cursor is any slot. The producer writes the frames \<open>ws\<close>, and the thread
  then takes the steps of one check: one into the catch-up loop, one for each slot between
  its cursor and the write cursor, one out of the loop. If \<^verbatim>\<open>process_frame\<close> never raises,
  the thread does not end. If the thread has not ended, it waits again, the cursor is on
  the write cursor, and the frames dispatched are those of the slots passed, in slot
  order. From a cursor that was on the write cursor, the frames dispatched are the last
  \<open>length ws mod N\<close> writes, in the order of writing, each once: all of them when fewer
  than \<open>N\<close> were written, and with the older ones skipped otherwise.
\<close>

theorem catch_up_delivers_in_order:
  assumes v: "valid_buffer (shared s)" and cf: "contract_frame pf"
    and th: "thread_pc s = Some AtOuter" and run: "w_running (self s)"
    and c: "w_frame_index (self s) < buffer_len (shared s)"
    and len: "length nows = lag (buffer_len (shared s)) (w_frame_index (self s))
                (frame_index (writes ws (shared s))) + 2"
  shows "(contract_total pf \<longrightarrow> \<not> finished (catch_up pf ws nows s))
    \<and> (\<not> finished (catch_up pf ws nows s) \<longrightarrow>
          thread_pc (catch_up pf ws nows s) = Some AtOuter
          \<and> shared (catch_up pf ws nows s) = writes ws (shared s)
          \<and> w_frame_index (self (catch_up pf ws nows s)) = frame_index (shared (catch_up pf ws nows s))
          \<and> dispatched (catch_up pf ws nows s)
              = dispatched s
                @ slot_frames (writes ws (shared s))
                    (slots_after (buffer_len (shared s)) (w_frame_index (self s)) (length nows - 2)))
    \<and> (\<not> finished (catch_up pf ws nows s) \<and> w_frame_index (self s) = frame_index (shared s) \<longrightarrow>
          dispatched (catch_up pf ws nows s)
            = dispatched s @ drop (length ws - length ws mod buffer_len (shared s)) ws)
    \<and> (\<not> finished (catch_up pf ws nows s) \<and> w_frame_index (self s) = frame_index (shared s)
          \<and> length ws < buffer_len (shared s) \<longrightarrow>
          dispatched (catch_up pf ws nows s) = dispatched s @ ws)"
proof -
  let ?N = "buffer_len (shared s)"
  let ?s0 = "s\<lparr>shared := writes ws (shared s)\<rparr>"
  let ?m = "lag ?N (w_frame_index (self s)) (frame_index (writes ws (shared s)))"
  let ?s' = "catch_up pf ws nows s"
  from th obtain ll where th': "w_thread (self s) = Some (AtOuter, ll)"
    by (auto simp: thread_pc_def)
  from len obtain t0 rest where n1: "nows = t0 # rest" and lr: "length rest = ?m + 1"
    by (cases nows) simp_all
  from lr obtain mid t1 where n2: "rest = mid @ [t1]" and lm: "length mid = ?m"
    by (cases rest rule: rev_cases) simp_all
  note wv = writes_valid [OF v, of ws]
  have s': "?s' = exec pf (Tick t0 # map Tick mid @ [Tick t1]) ?s0"
    by (simp add: catch_up_def exec_append exec_writes n1 n2)
  have q1: "valid_buffer (shared ?s0)" and q2: "w_thread (self ?s0) = Some (AtOuter, ll)"
    and q3: "w_running (self ?s0)" and q4: "w_frame_index (self ?s0) < buffer_len (shared ?s0)"
    and q5: "length mid = lag (buffer_len (shared ?s0)) (w_frame_index (self ?s0))
                (frame_index (shared ?s0))"
    using wv th' run c lm by simp_all
  note pass = catch_up_pass [OF cf q1 q2 q3 q4 q5, of t0 t1, folded s']
  have total: "\<not> finished ?s'" if "contract_total pf"
    using pass that by (auto simp: finished_def)
  have general: "thread_pc ?s' = Some AtOuter \<and> shared ?s' = writes ws (shared s)
      \<and> w_frame_index (self ?s') = frame_index (shared ?s')
      \<and> dispatched ?s' = dispatched s
          @ slot_frames (writes ws (shared s)) (slots_after ?N (w_frame_index (self s)) ?m)"
    if "\<not> finished ?s'"
    using pass that wv by (auto simp: lm)
  have sync: "dispatched ?s' = dispatched s @ drop (length ws - length ws mod ?N) ws"
    if nf: "\<not> finished ?s'" and sy: "w_frame_index (self s) = frame_index (shared s)"
  proof -
    from v have "frame_index (shared s) < ?N"
      by (simp add: valid_buffer_def)
    from lag_after_writes [OF this, of "length ws"] wv sy have "?m = length ws mod ?N"
      by simp
    with general [OF nf] slot_frames_writes_overflow [OF v, of ws] sy show ?thesis
      by simp
  qed
  have few: "dispatched ?s' = dispatched s @ ws"
    if "\<not> finished ?s'" and "w_frame_index (self s) = frame_index (shared s)"
      and "length ws < ?N"
    using sync [OF that(1,2)] that(3) by simp
  have "length nows - 2 = ?m"
    by (simp add: len)
  with total general sync few show ?thesis
    by simp
qed

section \<open>Frames as objects: proofs\<close>

lemma process_frame_ref_unfold:
  "process_frame_ref cv custom now ts a (w, st) =
     (case track_fps now w of
        (Inl ex, w1) \<Rightarrow> (Inl ex, (w1, st @ [st ! a]))
      | (Inr fps, w1) \<Rightarrow>
          custom ts (length st)
            (w1, st @ [putText cv (w_name w1, fps) (17, 16) (w_text_size w1) (150, 120, 50) 1
                         (circle cv (8, 12) 4 (10, 40, 200) 2 (st ! a))]))"
  by (simp add: process_frame_ref_def np_array_def cv2_circle_def cv2_putText_def Let_def
      split: prod.splits sum.splits)

text \<open>
  Claim C8. The caller's frame is an array of the store. Whatever \<^verbatim>\<open>process_frame\<close> of the
  base class returns or raises, the store it leaves is the old store with one array added:
  the caller's frame, like every array that existed, has the pixels it had. The frame
  returned is the added array, and its pixels are those that \<^verbatim>\<open>process_frame\<close> computes on
  pixels. For any variant, \<^verbatim>\<open>_custom_processing\<close> is called with the added array: the
  overlay was drawn on the copy.
\<close>

theorem frame_not_mutated:
  assumes "a < length st"
  shows "(\<forall>r w1 st1. process_frame_ref cv custom_processing_ref now ts a (w, st) = (r, (w1, st1)) \<longrightarrow>
            take (length st) st1 = st \<and> st1 ! a = st ! a
            \<and> (\<forall>p evs. r = Inr (p, evs) \<longrightarrow>
                  p = length st \<and> p \<noteq> a \<and> length st1 = Suc (length st)
                  \<and> process_frame cv custom_processing now ts (st ! a) w
                       = (Inr (st1 ! p, evs), w1)))
    \<and> (\<forall>fps w1. track_fps now w = (Inr fps, w1) \<longrightarrow>
          process_frame_ref cv custom now ts a (w, st)
            = custom ts (length st)
                (w1, st @ [putText cv (w_name w1, fps) (17, 16) (w_text_size w1) (150, 120, 50) 1
                             (circle cv (8, 12) 4 (10, 40, 200) 2 (st ! a))]))"
proof -
  obtain r0 w0 where t: "track_fps now w = (r0, w0)" by (cases "track_fps now w")
  show ?thesis
  proof (cases r0)
    case (Inl ex)
    with t assms show ?thesis
      by (simp add: process_frame_ref_unfold process_frame_def nth_append)
  next
    case (Inr fps)
    with t assms show ?thesis
      by (simp add: process_frame_ref_unfold process_frame_def custom_processing_ref_def
          custom_processing_def nth_append Let_def)
  qed
qed

section \<open>Stopping the watcher: proofs\<close>

lemma join_exited:
  "thread_pc s = Some Exited \<Longrightarrow> join pf now s = Some s"
  by (simp add: join_def while_option_unfold)

lemma join_outer:
  assumes "w_thread (self s) = Some (AtOuter, ll)" and "\<not> w_running (self s)"
  shows "join pf now s = Some (s\<lparr>self := set_pc Exited (self s)\<rparr>)"
proof -
  let ?s1 = "s\<lparr>self := set_pc Exited (self s)\<rparr>"
  from assms have st: "watch_step pf now s = ?s1"
    by (simp add: watch_step_def)
  from assms have "thread_pc s \<noteq> Some Exited" and "thread_pc ?s1 = Some Exited"
    by (simp_all add: thread_pc_def set_pc_def)
  then show ?thesis
    by (simp add: join_def while_option_unfold [of _ _ s] st while_option_unfold [of _ _ ?s1])
qed

lemma join_inner:
  assumes "w_thread (self s) = Some (AtInner, ll)" and "\<not> w_running (self s)"
  shows "join pf now s = Some (s\<lparr>self := set_pc Exited (self (watch_idle now ll s)),
            logger := logger (watch_idle now ll s)\<rparr>)"
proof -
  let ?s1 = "watch_idle now ll s"
  from assms have st: "watch_step pf now s = ?s1"
    by (simp add: watch_step_def)
  from assms have ne: "thread_pc s \<noteq> Some Exited"
    by (simp add: thread_pc_def)
  obtain ll' where th1: "w_thread (self ?s1) = Some (AtOuter, ll')"
    by (cases "60 < total_seconds (now - ll)") (simp_all add: watch_idle_def)
  from assms have run1: "\<not> w_running (self ?s1)"
    by (simp add: watch_idle_def)
  have "join pf now s = join pf now ?s1"
    using ne by (simp add: join_def while_option_unfold [of _ _ s] st)
  also have "\<dots> = Some (?s1\<lparr>self := set_pc Exited (self ?s1)\<rparr>)"
    by (rule join_outer [OF th1 run1])
  also have "?s1\<lparr>self := set_pc Exited (self ?s1)\<rparr>
      = s\<lparr>self := set_pc Exited (self ?s1), logger := logger ?s1\<rparr>"
    by (simp add: watch_idle_def)
  finally show ?thesis .
qed

lemma stop_started:
  assumes "w_thread (self s) = Some (p, ll)"
  shows "\<exists>s'. stop pf now s = Some (Inr (), s') \<and> thread_pc s' = Some Exited
    \<and> \<not> w_running (self s') \<and> dispatched s' = dispatched s \<and> screen s' = screen s
    \<and> w_frame_index (self s') = w_frame_index (self s)"
proof -
  let ?s1 = "s\<lparr>self := (self s)\<lparr>w_running := False\<rparr>\<rparr>"
  from assms have th: "w_thread (self ?s1) = Some (p, ll)" and nr: "\<not> w_running (self ?s1)"
    by simp_all
  have "\<exists>s2. join pf now ?s1 = Some s2 \<and> thread_pc s2 = Some Exited
      \<and> \<not> w_running (self s2) \<and> dispatched s2 = dispatched s \<and> screen s2 = screen s
      \<and> w_frame_index (self s2) = w_frame_index (self s)"
  proof (cases p)
    case AtOuter
    with join_outer [OF th [unfolded AtOuter] nr, of pf now] assms show ?thesis
      by (simp add: thread_pc_def set_pc_def)
  next
    case AtInner
    with join_inner [OF th [unfolded AtInner] nr, of pf now] assms show ?thesis
      by (simp add: thread_pc_def set_pc_def watch_idle_def)
  next
    case Exited
    with th have "thread_pc ?s1 = Some Exited"
      by (simp add: thread_pc_def)
    from join_exited [OF this, of pf now] this show ?thesis
      by simp
  qed
  then obtain s2 where j: "join pf now ?s1 = Some s2" and rest: "thread_pc s2 = Some Exited"
      "\<not> w_running (self s2)" "dispatched s2 = dispatched s" "screen s2 = screen s"
      "w_frame_index (self s2) = w_frame_index (self s)"
    by blast
  from assms j have "stop pf now s
      = Some (Inr (), s2\<lparr>logger := logger s2 @ [Info (''Stopped '' @ w_name (self s2))]\<rparr>)"
    by (simp add: stop_def Let_def)
  with rest show ?thesis
    by (simp add: thread_pc_def)
qed

lemma stop_then_nothing:
  assumes "w_thread (self s) = Some (p, ll)"
  shows "\<exists>s'. stop pf now s = Some (Inr (), s')
    \<and> (\<forall>evs. dispatched (exec pf evs s') = dispatched s)"
proof -
  from stop_started [OF assms, of pf now] obtain s' where
    st: "stop pf now s = Some (Inr (), s')" and ex: "thread_pc s' = Some Exited"
    and d: "dispatched s' = dispatched s"
    by blast
  from ex have "finished s'"
    by (simp add: finished_def)
  from exec_finished [OF this, of pf] d st show ?thesis
    by simp
qed

lemma stop_never_started:
  "w_thread (self s) = None \<Longrightarrow>
   stop pf now s = Some (Inl AttributeError, s\<lparr>self := (self s)\<lparr>w_running := False\<rparr>\<rparr>)"
  by (simp add: stop_def Let_def)

text \<open>
  Claim C3. On a watcher that was started, running or already stopped, \<^verbatim>\<open>stop\<close> returns,
  the thread has left \<^verbatim>\<open>_watch\<close>, and nothing is dispatched afterwards
  (\<open>stop_started\<close>, \<open>stop_then_nothing\<close>). On a watcher that was constructed and never
  started, which is stopped as well (\<^verbatim>\<open>running\<close> is false), \<^verbatim>\<open>self._thread\<close> is \<^verbatim>\<open>None\<close> and
  \<^verbatim>\<open>stop\<close> raises \<^verbatim>\<open>AttributeError\<close> instead of returning.
\<close>

theorem stop_before_run_raises:
  "\<not> w_running (self example_new)
   \<and> stop example_process_frame 10 example_new
       = Some (Inl AttributeError, example_new)"
  by (simp add: stop_def Let_def example_new_def init_def)

section \<open>The theorems on concrete inputs\<close>

lemmas ex_defs = example_process_frame_def example_cv2_def example_buffer_def example_sys_def run_def init_def
  catch_up_def write_frame_def watch_step_def watch_body_def watch_idle_def set_pc_def
  process_frame_def custom_processing_def track_fps_def Let_def FPS_FRAMES_def
  total_seconds_def display_video_def except_handler_def thread_pc_def finished_def
  valid_buffer_def lag_def writes_def

lemma contract_frame_bare: "contract_frame bare_process_frame"
  by (simp add: contract_frame_def bare_process_frame_def custom_processing_def)

lemma contract_total_bare: "contract_total bare_process_frame"
  by (simp add: contract_total_def bare_process_frame_def custom_processing_def)

theorem catch_up_delivers_in_order_witness:
  "dispatched (catch_up example_process_frame
      [(1, ''a''), (2, ''b'')] [10, 20, 30, 40] example_sys)
     = [(1, ''a''), (2, ''b'')]
   \<and> dispatched (catch_up example_process_frame
        [(1, ''a''), (2, ''b''), (3, ''c''), (4, ''d''), (5, ''e'')] [10, 20, 30, 40] example_sys)
     = [(4, ''d''), (5, ''e'')]
   \<and> w_frame_index (self (catch_up example_process_frame
        [(1, ''a''), (2, ''b''), (3, ''c''), (4, ''d''), (5, ''e'')] [10, 20, 30, 40] example_sys))
     = 2
   \<and> \<not> finished (catch_up bare_process_frame
        [(1, ''a''), (2, ''b''), (3, ''c''), (4, ''d''), (5, ''e'')] [10, 20, 30, 40] example_sys)"
proof -
  let ?pf = example_process_frame
  let ?bare = bare_process_frame
  let ?few = "[(1, ''a''), (2, ''b'')] :: (timestamp \<times> string) list"
  let ?many = "[(1, ''a''), (2, ''b''), (3, ''c''), (4, ''d''), (5, ''e'')]
    :: (timestamp \<times> string) list"
  let ?nows = "[10, 20, 30, 40] :: timestamp list"
  have v: "valid_buffer (shared example_sys)"
    and th: "thread_pc example_sys = Some AtOuter"
    and run: "w_running (self example_sys)"
    and c: "w_frame_index (self example_sys) < buffer_len (shared example_sys)"
    and sync: "w_frame_index (self example_sys) = frame_index (shared example_sys)"
    and N: "buffer_len (shared example_sys) = 3"
    and d0: "dispatched example_sys = []"
    by (simp_all add: example_sys_def example_buffer_def run_def init_def valid_buffer_def
        thread_pc_def)
  have cf: "contract_frame ?pf"
    unfolding example_process_frame_def by (rule contract_frame_process_frame)
  have len_few: "length ?nows = lag (buffer_len (shared example_sys))
      (w_frame_index (self example_sys)) (frame_index (writes ?few (shared example_sys))) + 2"
    by (simp add: example_sys_def example_buffer_def run_def init_def writes_def
        write_frame_def lag_def)
  have len_many: "length ?nows = lag (buffer_len (shared example_sys))
      (w_frame_index (self example_sys)) (frame_index (writes ?many (shared example_sys))) + 2"
    by (simp add: example_sys_def example_buffer_def run_def init_def writes_def
        write_frame_def lag_def)
  have nf_few: "\<not> finished (catch_up ?pf ?few ?nows example_sys)"
    by (simp add: ex_defs)
  have nf_many: "\<not> finished (catch_up ?pf ?many ?nows example_sys)"
    by (simp add: ex_defs)
  note few_thm = catch_up_delivers_in_order [OF v cf th run c len_few]
  note many_thm = catch_up_delivers_in_order [OF v cf th run c len_many]
  from few_thm [THEN conjunct2, THEN conjunct2, THEN conjunct2] nf_few sync N d0
  have few: "dispatched (catch_up ?pf ?few ?nows example_sys) = ?few"
    by simp
  from many_thm [THEN conjunct2, THEN conjunct2, THEN conjunct1] nf_many sync N d0
  have many1: "dispatched (catch_up ?pf ?many ?nows example_sys) = [(4, ''d''), (5, ''e'')]"
    by simp
  from many_thm [THEN conjunct2, THEN conjunct1] nf_many
  have many2: "w_frame_index (self (catch_up ?pf ?many ?nows example_sys))
      = frame_index (writes ?many (shared example_sys))"
    by simp
  note many = many1 many2
  have "frame_index (writes ?many (shared example_sys)) = 2"
    by (simp add: example_sys_def example_buffer_def run_def init_def writes_def
        write_frame_def)
  moreover
  from catch_up_delivers_in_order [OF v contract_frame_bare th run c len_many]
    contract_total_bare
  have "\<not> finished (catch_up ?bare ?many ?nows example_sys)"
    by blast
  ultimately show ?thesis
    using few many by simp
qed

lemmas ex_defs2 = ex_defs example_full_def example_cold_def example_failing_def
  failing_process_frame_def failing_custom_def catching_up_def next_slot_def

text \<open>
  Counterexample to C1 as the spec states it, only the oldest excess writes skipped: on a
  buffer of three slots, after five writes the buffer holds the frames 3, 4 and 5, and
  the excess writes are 1 and 2; the check dispatches 4 and 5 only, and further steps
  of the thread do not dispatch frame 3.
\<close>

theorem catch_up_skips_retained_counterexample:
  "buffer (shared (catch_up example_process_frame
      [(1, ''a''), (2, ''b''), (3, ''c''), (4, ''d''), (5, ''e'')] [10, 20, 30, 40] example_sys))
     = [Some (3, ''c''), Some (4, ''d''), Some (5, ''e'')]
   \<and> dispatched (catch_up example_process_frame
        [(1, ''a''), (2, ''b''), (3, ''c''), (4, ''d''), (5, ''e'')] [10, 20, 30, 40] example_sys)
     = [(4, ''d''), (5, ''e'')]
   \<and> dispatched (catch_up example_process_frame
        [(1, ''a''), (2, ''b''), (3, ''c''), (4, ''d''), (5, ''e'')] [10, 20, 30, 40] example_sys)
     \<noteq> drop (5 - buffer_len (shared example_sys))
          [(1, ''a''), (2, ''b''), (3, ''c''), (4, ''d''), (5, ''e'')]
   \<and> dispatched (catch_up example_process_frame
        [(1, ''a''), (2, ''b''), (3, ''c''), (4, ''d''), (5, ''e'')] [10, 20, 30, 40, 50, 60, 70, 80]
        example_sys)
     = [(4, ''d''), (5, ''e'')]"
  by (simp add: ex_defs)

theorem cursor_advances_one_slot_witness:
  "w_frame_index (self (watch_step example_process_frame 20 example_full)) = 1
   \<and> w_prev_timestamp (self (watch_step example_process_frame 20 example_full)) = 1
   \<and> dispatched (watch_step example_process_frame 20 example_full) = [(1, ''a'')]
   \<and> watch_step example_process_frame 20 example_cold
       = example_cold\<lparr>self := (self example_cold)\<lparr>w_frame_index := 1\<rparr>\<rparr>
   \<and> w_frame_index (self (watch_step example_process_frame 20 example_sys)) = 0"
proof -
  let ?pf = example_process_frame
  have cf: "contract_frame ?pf"
    unfolding example_process_frame_def by (rule contract_frame_process_frame)
  have full: "0 < buffer_len (shared example_full)"
      "length (buffer (shared example_full)) = buffer_len (shared example_full)"
      "catching_up example_full" "next_slot example_full = 1"
      "buffer (shared example_full) ! next_slot example_full = Some (1, ''a'')"
      "dispatched example_full = []"
    by (simp_all add: ex_defs2)
  have ret: "?pf 20 1 ''a'' ((self example_full)\<lparr>w_frame_index := next_slot example_full\<rparr>)
      = (Inr (''aoW'', Some []), (self example_full)\<lparr>w_frame_index := 1, w_fps_counter := 1\<rparr>)"
    by (simp add: ex_defs2)
  have cold: "0 < buffer_len (shared example_cold)"
      "length (buffer (shared example_cold)) = buffer_len (shared example_cold)"
      "catching_up example_cold" "next_slot example_cold = 1"
      "buffer (shared example_cold) ! next_slot example_cold = None"
    by (simp_all add: ex_defs2)
  have wait: "0 < buffer_len (shared example_sys)"
      "length (buffer (shared example_sys)) = buffer_len (shared example_sys)"
      "\<not> catching_up example_sys" "w_frame_index (self example_sys) = 0"
    by (simp_all add: ex_defs2)
  note t_full = cursor_advances_one_slot [OF full(1,2) cf, of 20]
  note t_cold = cursor_advances_one_slot [OF cold(1,2) cf, of 20]
  note t_wait = cursor_advances_one_slot [OF wait(1,2) cf, of 20]
  from t_full [THEN conjunct1] full(3,4)
  have a: "w_frame_index (self (watch_step ?pf 20 example_full)) = 1"
    by simp
  from t_full [THEN conjunct2, THEN conjunct2, THEN conjunct2, THEN conjunct1, rule_format,
      OF conjI [OF full(3) conjI [OF full(5) ret]]] full(6)
  have b: "w_prev_timestamp (self (watch_step ?pf 20 example_full)) = 1
      \<and> dispatched (watch_step ?pf 20 example_full) = [(1, ''a'')]"
    by simp
  from t_cold [THEN conjunct2, THEN conjunct2, THEN conjunct1] cold(3,4,5)
  have c: "watch_step ?pf 20 example_cold
      = example_cold\<lparr>self := (self example_cold)\<lparr>w_frame_index := 1\<rparr>\<rparr>"
    by simp
  from t_wait [THEN conjunct2, THEN conjunct1] wait(3,4)
  have d: "w_frame_index (self (watch_step ?pf 20 example_sys)) = 0"
    by simp
  from a b c d show ?thesis
    by simp
qed

theorem error_terminates_watcher_witness:
  "logger (watch_step failing_process_frame 20 example_failing)
     = [Info ''W running'', ErrorMsg ''Exception caught in W'',
        ExceptionTrace (DetectorError ''frame 42'')]
   \<and> dispatched (watch_step failing_process_frame 20 example_failing) = [(42, ''x'')]
   \<and> thread_pc (watch_step failing_process_frame 20 example_failing) = Some Exited
   \<and> dispatched (exec failing_process_frame [Write 43 ''y'', Tick 30, Tick 40]
        (watch_step failing_process_frame 20 example_failing)) = [(42, ''x'')]"
proof -
  let ?pf = failing_process_frame
  have h: "catching_up example_failing" "0 < buffer_len (shared example_failing)"
      "next_slot example_failing < length (buffer (shared example_failing))"
      "buffer (shared example_failing) ! next_slot example_failing = Some (42, ''x'')"
    by (simp_all add: ex_defs2)
  have raised: "?pf 20 42 ''x'' ((self example_failing)\<lparr>w_frame_index := next_slot example_failing\<rparr>)
      = (Inl (DetectorError ''frame 42''),
         (self example_failing)\<lparr>w_frame_index := 1, w_fps_counter := 1\<rparr>)"
    by (simp add: ex_defs2)
  have cf: "contract_frame ?pf"
    by (simp add: contract_frame_def failing_process_frame_def process_frame_def
        failing_custom_def custom_processing_def track_fps_def Let_def split: prod.splits)
  have st: "logger example_failing = [Info ''W running'']" "dispatched example_failing = []"
      "w_name (self example_failing) = ''W''"
    by (simp_all add: ex_defs2)
  note t = error_terminates_watcher [where pf = ?pf and now = 20, OF h raised]
  from t cf st show ?thesis
    by (simp del: exec.simps)
qed



theorem frame_not_mutated_witness:
  "fst (process_frame_ref example_cv2 custom_processing_ref 5 1 0
          (init ''W'' False None 0 0, [''a'']))
     = Inr (1, Some ([] :: string list))
   \<and> snd (snd (process_frame_ref example_cv2
          (custom_processing_ref :: (string, string, unit) custom_ref) 5 1 0
          (init ''W'' False None 0 0, [''a''])))
     = [''a'', ''aoW'']"
proof -
  let ?w = "init ''W'' False None 0 0"
  let ?c = "custom_processing_ref :: (string, string, unit) custom_ref"
  have h: "(0::nat) < length [''a'']"
    by simp
  have e: "process_frame_ref example_cv2 ?c 5 1 0 (?w, [''a''])
      = (Inr (1, Some []), (?w\<lparr>w_fps_counter := 1\<rparr>, [''a'', ''aoW'']))"
    by (simp add: process_frame_ref_def np_array_def cv2_circle_def cv2_putText_def
        custom_processing_ref_def track_fps_def init_def example_cv2_def FPS_FRAMES_def Let_def)
  from frame_not_mutated [OF h, of example_cv2 5 1 ?w, THEN conjunct1, rule_format, OF e]
  have "take (length [''a'']) [''a'', ''aoW''] = [''a'']"
    by simp
  with e show ?thesis
    by simp
qed

section \<open>The synchronous driver: proofs\<close>

lemma loop_body_clock:
  assumes "total_seconds (rd_now rd - lastframe_time st) = 0"
  shows "loop_body cfg env pf rd st
         = (Some (Crashed ZeroDivisionError),
            st\<lparr>framecount := framecount st + 1, lastframe_time := rd_now rd\<rparr>)"
  using assms by (simp add: loop_body_def Let_def)

lemma loop_body_raised:
  assumes "total_seconds (rd_now rd - lastframe_time st) \<noteq> 0"
    and "pf (rd_fps_now rd) (rd_now rd) (resize env (rd_frame rd)) (watcher st) = (Inl ex, w)"
  shows "loop_body cfg env pf rd st
         = (Some (Crashed ex),
            st\<lparr>framecount := framecount st + 1, lastframe_time := rd_now rd, watcher := w\<rparr>)"
  using assms by (simp add: loop_body_def Let_def)

lemma loop_body_returned:
  assumes "total_seconds (rd_now rd - lastframe_time st) \<noteq> 0"
    and "pf (rd_fps_now rd) (rd_now rd) (resize env (rd_frame rd)) (watcher st)
           = (Inr (p, events), w)"
  shows "loop_body cfg env pf rd st =
    (if rd_key_q rd then Some Interrupted else None,
     st\<lparr>framecount := framecount st + 1,
        lastframe_time := rd_now rd,
        watcher := w,
        tracker := snd (annotated env p events (tracker st)),
        disk := disk st @
          (if save_frames cfg \<and> events \<noteq> None \<and> the events \<noteq> [] then
             [(save_loc cfg @ ''/'' @ ''frame_'' @ str_nat (framecount st + 1) @ ''.jpeg'',
               Jpeg (resize env (rd_frame rd))),
              (save_loc cfg @ ''/'' @ ''frame_'' @ str_nat (framecount st + 1) @ ''.bb.jpeg'',
               Jpeg (fst (annotated env p events (tracker st))))]
           else []),
        detection_events :=
          (if save_frames cfg \<and> events \<noteq> None \<and> the events \<noteq> [] then
             AList.update (framecount st + 1) (the events) (detection_events st)
           else detection_events st),
        movie := movie st @
          (if write_processed_movie cfg then [fst (annotated env p events (tracker st))] else []),
        window := window st @ [fst (annotated env p events (tracker st))]\<rparr>)"
proof -
  obtain p1 t1 where u: "update_detection_events env p events (tracker st) = (p1, t1)"
    by (cases "update_detection_events env p events (tracker st)")
  obtain p2 t2 where c: "collision_detect env p1 t1 = (p2, t2)"
    by (cases "collision_detect env p1 t1")
  from assms u c show ?thesis
    by (auto simp: loop_body_def Let_def annotated_def save_frame_def)
qed

lemma loop_body_skip_count:
  "loop_body (cfg\<lparr>skip_count := n\<rparr>) env pf rd st = loop_body cfg env pf rd st"
proof (cases "total_seconds (rd_now rd - lastframe_time st) = 0")
  case True
  then show ?thesis
    by (simp add: loop_body_clock)
next
  case False
  obtain r w where pf: "pf (rd_fps_now rd) (rd_now rd) (resize env (rd_frame rd)) (watcher st) = (r, w)"
    by (cases "pf (rd_fps_now rd) (rd_now rd) (resize env (rd_frame rd)) (watcher st)")
  show ?thesis
  proof (cases r)
    case (Inl ex)
    with False pf show ?thesis
      by (simp add: loop_body_raised)
  next
    case (Inr pe)
    obtain p events where "pe = (p, events)" by (cases pe)
    with Inr False pf show ?thesis
      by (simp add: loop_body_returned)
  qed
qed

lemma loop_body_skip_counter:
  "skip_counter (snd (loop_body cfg env pf rd st)) = skip_counter st"
proof (cases "total_seconds (rd_now rd - lastframe_time st) = 0")
  case True
  then show ?thesis
    by (simp add: loop_body_clock)
next
  case False
  obtain r w where pf: "pf (rd_fps_now rd) (rd_now rd) (resize env (rd_frame rd)) (watcher st) = (r, w)"
    by (cases "pf (rd_fps_now rd) (rd_now rd) (resize env (rd_frame rd)) (watcher st)")
  show ?thesis
  proof (cases r)
    case (Inl ex)
    with False pf show ?thesis
      by (simp add: loop_body_raised)
  next
    case (Inr pe)
    obtain p events where "pe = (p, events)" by (cases pe)
    with Inr False pf show ?thesis
      by (simp add: loop_body_returned)
  qed
qed

lemma loop_body_continues:
  assumes "loop_body cfg env pf rd st = (None, st1)"
  shows "framecount st1 = framecount st + 1 \<and> length (window st1) = length (window st) + 1
    \<and> skip_counter st1 = skip_counter st"
proof (cases "total_seconds (rd_now rd - lastframe_time st) = 0")
  case True
  with assms show ?thesis
    by (simp add: loop_body_clock)
next
  case False
  obtain r w where pf: "pf (rd_fps_now rd) (rd_now rd) (resize env (rd_frame rd)) (watcher st) = (r, w)"
    by (cases "pf (rd_fps_now rd) (rd_now rd) (resize env (rd_frame rd)) (watcher st)")
  show ?thesis
  proof (cases r)
    case (Inl ex)
    with False pf assms show ?thesis
      by (simp add: loop_body_raised)
  next
    case (Inr pe)
    obtain p events where "pe = (p, events)" by (cases pe)
    with Inr False pf assms show ?thesis
      by (auto simp: loop_body_returned split: if_splits)
  qed
qed

lemma main_loop_Nil:
  "main_loop cfg env pf [] st = (Exhausted, st\<lparr>skip_counter := 0\<rparr>)"
proof (induction "skip_count cfg - skip_counter st" arbitrary: st)
  case 0
  then show ?case
    by (simp add: main_loop.simps)
next
  case (Suc n)
  show ?case
  proof (cases "skip_counter st + 1 < skip_count cfg")
    case True
    with Suc.hyps(2) have "n = skip_count cfg - skip_counter (st\<lparr>skip_counter := skip_counter st + 1\<rparr>)"
      by simp
    from Suc.hyps(1) [OF this] True show ?thesis
      by (simp add: main_loop.simps(1) [of cfg env pf st])
  next
    case False
    then show ?thesis
      by (simp add: main_loop.simps)
  qed
qed

lemma main_loop_keep:
  "\<not> skip_counter st + 1 < skip_count cfg \<Longrightarrow>
   main_loop cfg env pf (rd # src) st =
     (case loop_body cfg env pf rd (st\<lparr>skip_counter := 0\<rparr>) of
        (Some out, st1) \<Rightarrow> (out, st1)
      | (None, st1) \<Rightarrow> main_loop cfg env pf src st1)"
  by (simp add: main_loop.simps)

lemma main_loop_skip:
  "skip_counter st + 1 < skip_count cfg \<Longrightarrow>
   main_loop cfg env pf (rd # src) st
     = main_loop cfg env pf src (st\<lparr>skip_counter := skip_counter st + 1\<rparr>)"
  by (simp add: main_loop.simps)

lemma main_loop_counter_irrelevant:
  assumes "skip_count cfg \<le> 1"
  shows "main_loop cfg env pf src (st\<lparr>skip_counter := c\<rparr>) = main_loop cfg env pf src st"
proof (cases src)
  case Nil
  then show ?thesis
    by (simp add: main_loop_Nil)
next
  case (Cons rd rest)
  with assms show ?thesis
    by (simp add: main_loop_keep)
qed

lemma main_loop_kept:
  "main_loop cfg env pf src st
     = main_loop (cfg\<lparr>skip_count := 1\<rparr>) env pf (kept (skip_count cfg) (skip_counter st) src) st"
proof (induction src arbitrary: st)
  case Nil
  show ?case
    by (simp add: main_loop_Nil)
next
  case (Cons rd src)
  let ?one = "cfg\<lparr>skip_count := 1\<rparr>"
  show ?case
  proof (cases "skip_counter st + 1 < skip_count cfg")
    case True
    let ?st = "st\<lparr>skip_counter := skip_counter st + 1\<rparr>"
    have "main_loop cfg env pf (rd # src) st = main_loop cfg env pf src ?st"
      using True by (rule main_loop_skip)
    also have "\<dots> = main_loop ?one env pf (kept (skip_count cfg) (skip_counter st + 1) src) ?st"
      using Cons.IH [of ?st] by simp
    also have "\<dots> = main_loop ?one env pf (kept (skip_count cfg) (skip_counter st + 1) src) st"
      by (rule main_loop_counter_irrelevant) simp
    finally show ?thesis
      using True by simp
  next
    case False
    let ?st = "st\<lparr>skip_counter := 0\<rparr>"
    obtain out st1 where b: "loop_body cfg env pf rd ?st = (out, st1)"
      by (cases "loop_body cfg env pf rd ?st")
    from loop_body_skip_counter [of cfg env pf rd ?st] b have c1: "skip_counter st1 = 0"
      by simp
    have one: "main_loop ?one env pf (rd # kept (skip_count cfg) 0 src) st =
      (case loop_body cfg env pf rd ?st of
         (Some out, st1) \<Rightarrow> (out, st1)
       | (None, st1) \<Rightarrow> main_loop ?one env pf (kept (skip_count cfg) 0 src) st1)"
      using main_loop_keep [of st ?one env pf rd "kept (skip_count cfg) 0 src"]
      by (simp add: loop_body_skip_count)
    have lhs: "main_loop cfg env pf (rd # src) st =
      (case loop_body cfg env pf rd ?st of
         (Some out, st1) \<Rightarrow> (out, st1)
       | (None, st1) \<Rightarrow> main_loop cfg env pf src st1)"
      using False by (rule main_loop_keep)
    have rhs: "kept (skip_count cfg) (skip_counter st) (rd # src) = rd # kept (skip_count cfg) 0 src"
      using False by simp
    show ?thesis
      unfolding lhs rhs one b using Cons.IH [of st1] c1
      by (cases out) simp_all
  qed
qed

lemma main_loop_exhausted:
  "main_loop cfg env pf src st = (Exhausted, st') \<Longrightarrow>
   framecount st' = framecount st + length (kept (skip_count cfg) (skip_counter st) src)
   \<and> length (window st') = length (window st) + length (kept (skip_count cfg) (skip_counter st) src)"
proof (induction src arbitrary: st)
  case Nil
  then show ?case
    by (auto simp: main_loop_Nil)
next
  case (Cons rd src)
  show ?case
  proof (cases "skip_counter st + 1 < skip_count cfg")
    case True
    with Cons.prems have "main_loop cfg env pf src (st\<lparr>skip_counter := skip_counter st + 1\<rparr>)
        = (Exhausted, st')"
      by (simp add: main_loop_skip)
    from Cons.IH [OF this] True show ?thesis
      by simp
  next
    case False
    let ?st = "st\<lparr>skip_counter := 0\<rparr>"
    obtain out st1 where b: "loop_body cfg env pf rd ?st = (out, st1)"
      by (cases "loop_body cfg env pf rd ?st")
    show ?thesis
    proof (cases out)
      case None
      with b Cons.prems False have rest: "main_loop cfg env pf src st1 = (Exhausted, st')"
        by (simp add: main_loop_keep)
      from loop_body_continues [OF b [unfolded None]]
      have "framecount st1 = framecount st + 1" "length (window st1) = length (window st) + 1"
        "skip_counter st1 = 0"
        by simp_all
      with Cons.IH [OF rest] False show ?thesis
        by simp
    next
      case (Some e)
      with b Cons.prems False have e: "e = Exhausted" "st1 = st'"
        by (simp_all add: main_loop_keep)
      have "fst (loop_body cfg env pf rd ?st) \<noteq> Some Exhausted"
      proof (cases "total_seconds (rd_now rd - lastframe_time ?st) = 0")
        case True
        then show ?thesis
          by (simp add: loop_body_clock)
      next
        case nz: False
        obtain r w where pf: "pf (rd_fps_now rd) (rd_now rd) (resize env (rd_frame rd)) (watcher ?st) = (r, w)"
          by (cases "pf (rd_fps_now rd) (rd_now rd) (resize env (rd_frame rd)) (watcher ?st)")
        show ?thesis
        proof (cases r)
          case (Inl ex)
          with nz pf show ?thesis
            by (simp add: loop_body_raised)
        next
          case (Inr pe)
          obtain p events where "pe = (p, events)" by (cases pe)
          with Inr nz pf show ?thesis
            by (simp add: loop_body_returned)
        qed
      qed
      with b Some e show ?thesis
        by simp
    qed
  qed
qed

lemma kept_positions:
  "c < S \<Longrightarrow>
   kept S c xs = map (\<lambda>j. xs ! (j * S + (S - 1 - c))) [0..<(length xs + c) div S]"
proof (induction xs arbitrary: c)
  case Nil
  then show ?case by simp
next
  case (Cons x xs)
  show ?case
  proof (cases "c + 1 < S")
    case True
    then have "kept S c (x # xs) = kept S (c + 1) xs"
      by simp
    also from True have "\<dots> = map (\<lambda>j. xs ! (j * S + (S - 1 - (c + 1)))) [0..<(length xs + (c + 1)) div S]"
      by (intro Cons.IH)
    also have "\<dots> = map (\<lambda>j. (x # xs) ! (j * S + (S - 1 - c))) [0..<(length (x # xs) + c) div S]"
    proof -
      from True have "j * S + (S - 1 - c) = Suc (j * S + (S - 1 - (c + 1)))" for j
        by simp
      then show ?thesis
        by simp
    qed
    finally show ?thesis .
  next
    case False
    with Cons.prems have S: "S = c + 1"
      by simp
    then have pos: "0 < S"
      by simp
    from False have "kept S c (x # xs) = x # kept S 0 xs"
      by simp
    also from pos have "kept S 0 xs = map (\<lambda>j. xs ! (j * S + (S - 1 - 0))) [0..<(length xs + 0) div S]"
      by (intro Cons.IH)
    finally have lhs: "kept S c (x # xs) = x # map (\<lambda>j. xs ! (j * S + (S - 1))) [0..<length xs div S]"
      by simp
    have "(length (x # xs) + c) div S = (length xs + S) div S"
      by (simp add: S)
    also have "\<dots> = Suc (length xs div S)"
      using pos by simp
    finally have "(length (x # xs) + c) div S = Suc (length xs div S)" .
    then have "map (\<lambda>j. (x # xs) ! (j * S + (S - 1 - c))) [0..<(length (x # xs) + c) div S]
        = map (\<lambda>j. (x # xs) ! (j * S)) [0..<Suc (length xs div S)]"
      by (simp add: S)
    also have "\<dots> = x # map (\<lambda>j. (x # xs) ! (Suc j * S)) [0..<length xs div S]"
      by (simp add: upt_conv_Cons map_Suc_upt [symmetric] del: upt_Suc)
    also have "map (\<lambda>j. (x # xs) ! (Suc j * S)) [0..<length xs div S]
        = map (\<lambda>j. xs ! (j * S + (S - 1))) [0..<length xs div S]"
    proof -
      have "(x # xs) ! (Suc j * S) = xs ! (j * S + (S - 1))" for j
      proof -
        from pos have "Suc j * S = Suc (j * S + (S - 1))"
          by simp
        then show ?thesis
          by (simp only: nth_Cons_Suc)
      qed
      then show ?thesis
        by (simp only:)
    qed
    finally show ?thesis
      using lhs by simp
  qed
qed

lemmas driver_defs = example_env_def example_config_def example_driver_def
  example_reading_def example_source_def detecting_process_frame_def detecting_custom_def
  example_process_frame_def example_cv2_def main_loop.simps loop_body_def process_frame_def
  custom_processing_def track_fps_def init_def total_seconds_def FPS_FRAMES_def Let_def
  save_frame_def str_nat.simps

lemma example_run:
  "main_loop example_config example_env example_process_frame example_source example_driver
     = (Exhausted,
        example_driver\<lparr>framecount := 2, lastframe_time := 1000,
          watcher := (init ''W'' False None 0 0)\<lparr>w_fps_counter := 2\<rparr>,
          tracker := 2, window := [''f5oW'', ''f10oW'']\<rparr>)"
  by (simp add: driver_defs)

lemma example_run_saving:
  "main_loop (example_config\<lparr>skip_count := 1, save_frames := True\<rparr>) example_env
       detecting_process_frame [example_reading ''f1'' 100] example_driver
     = (Exhausted,
        example_driver\<lparr>framecount := 1, lastframe_time := 100,
          watcher := (init ''W'' False None 0 0)\<lparr>w_fps_counter := 1\<rparr>,
          tracker := 1,
          detection_events := [(1, [''person''])],
          disk := [(''../captures//frame_1.jpeg'', Jpeg ''f1''),
                   (''../captures//frame_1.bb.jpeg'', Jpeg ''f1oW'')],
          window := [''f1oW'']\<rparr>)"
  by (simp add: driver_defs)

lemma loop_body_json:
  "filter is_json (disk (snd (loop_body cfg env pf rd st))) = filter is_json (disk st)"
proof (cases "total_seconds (rd_now rd - lastframe_time st) = 0")
  case True
  then show ?thesis
    by (simp add: loop_body_clock)
next
  case False
  obtain r w where pf: "pf (rd_fps_now rd) (rd_now rd) (resize env (rd_frame rd)) (watcher st) = (r, w)"
    by (cases "pf (rd_fps_now rd) (rd_now rd) (resize env (rd_frame rd)) (watcher st)")
  show ?thesis
  proof (cases r)
    case (Inl ex)
    with False pf show ?thesis
      by (simp add: loop_body_raised)
  next
    case (Inr pe)
    obtain p events where "pe = (p, events)" by (cases pe)
    with Inr False pf show ?thesis
      by (simp add: loop_body_returned)
  qed
qed

lemma main_loop_json:
  "filter is_json (disk (snd (main_loop cfg env pf src st))) = filter is_json (disk st)"
proof (induction src arbitrary: st)
  case Nil
  show ?case
    by (simp add: main_loop_Nil)
next
  case (Cons rd src)
  show ?case
  proof (cases "skip_counter st + 1 < skip_count cfg")
    case True
    with Cons.IH [of "st\<lparr>skip_counter := skip_counter st + 1\<rparr>"] show ?thesis
      by (simp add: main_loop_skip)
  next
    case False
    let ?st = "st\<lparr>skip_counter := 0\<rparr>"
    obtain out st1 where b: "loop_body cfg env pf rd ?st = (out, st1)"
      by (cases "loop_body cfg env pf rd ?st")
    from loop_body_json [of cfg env pf rd ?st] b
    have j: "filter is_json (disk st1) = filter is_json (disk st)"
      by simp
    from False b j Cons.IH [of st1] show ?thesis
      by (cases out) (simp_all add: main_loop_keep)
  qed
qed

text \<open>
  Claim C2, as the code has it. The run of the main loop on a source is the run, with
  \<^verbatim>\<open>skip_count = 1\<close>, on the frames that the skip counter lets through: the frames it
  discards change nothing, neither the watcher and its FPS state, nor the tracker, the
  recorded events, the files or the windows. Starting from 0, the counter lets through
  the frames at the positions \<open>S\<close>, \<open>2S\<close>, \<open>3S\<close>, ... for \<^verbatim>\<open>skip_count\<close> \<open>= S \<ge> 1\<close>: the
  last of every \<open>S\<close> consecutive frames. When the loop ends with the source exhausted,
  \<^verbatim>\<open>framecount\<close> and the number of frames shown have grown by \<open>length src div S\<close>.
\<close>

theorem skip_keeps_one_in_skip_count:
  "main_loop cfg env pf src st
     = main_loop (cfg\<lparr>skip_count := 1\<rparr>) env pf (kept (skip_count cfg) (skip_counter st) src) st
   \<and> (0 < skip_count cfg \<longrightarrow>
        kept (skip_count cfg) 0 src
          = map (\<lambda>j. src ! (j * skip_count cfg + (skip_count cfg - 1)))
              [0..<length src div skip_count cfg])
   \<and> (0 < skip_count cfg \<and> skip_counter st = 0
        \<and> fst (main_loop cfg env pf src st) = Exhausted \<longrightarrow>
        framecount (snd (main_loop cfg env pf src st))
          = framecount st + length src div skip_count cfg
        \<and> length (window (snd (main_loop cfg env pf src st)))
          = length (window st) + length src div skip_count cfg)"
proof (intro conjI impI)
  show "main_loop cfg env pf src st
     = main_loop (cfg\<lparr>skip_count := 1\<rparr>) env pf (kept (skip_count cfg) (skip_counter st) src) st"
    by (rule main_loop_kept)
next
  assume "0 < skip_count cfg"
  from kept_positions [OF this, of src]
  show "kept (skip_count cfg) 0 src
      = map (\<lambda>j. src ! (j * skip_count cfg + (skip_count cfg - 1)))
          [0..<length src div skip_count cfg]"
    by simp
next
  assume a: "0 < skip_count cfg \<and> skip_counter st = 0
      \<and> fst (main_loop cfg env pf src st) = Exhausted"
  then have pos: "0 < skip_count cfg" and c: "skip_counter st = 0"
    by simp_all
  from a have run: "main_loop cfg env pf src st = (Exhausted, snd (main_loop cfg env pf src st))"
    by (metis prod.collapse)
  from kept_positions [OF pos, of src]
  have len: "length (kept (skip_count cfg) (skip_counter st) src) = length src div skip_count cfg"
    by (simp add: c)
  from main_loop_exhausted [OF run] len
  show "framecount (snd (main_loop cfg env pf src st))
      = framecount st + length src div skip_count cfg"
    and "length (window (snd (main_loop cfg env pf src st)))
      = length (window st) + length src div skip_count cfg"
    by simp_all
qed

theorem skip_keeps_one_in_skip_count_witness:
  "framecount (snd (main_loop example_config example_env example_process_frame
      example_source example_driver)) = 2
   \<and> kept 5 0 example_source = [example_reading ''f5'' 500, example_reading ''f10'' 1000]"
proof -
  have h: "0 < skip_count example_config \<and> skip_counter example_driver = 0
      \<and> fst (main_loop example_config example_env example_process_frame
            example_source example_driver) = Exhausted"
    by (simp add: example_run) (simp add: example_config_def example_driver_def)
  have l: "length example_source div skip_count example_config = 2"
      "framecount example_driver = 0" "skip_count example_config = 5"
    by (simp_all add: example_source_def example_config_def example_driver_def)
  note t = skip_keeps_one_in_skip_count [of example_config example_env example_process_frame example_source example_driver]
  from t [THEN conjunct2, THEN conjunct2, rule_format, OF h] l
  have "framecount (snd (main_loop example_config example_env example_process_frame
      example_source example_driver)) = 2"
    by simp
  moreover from t [THEN conjunct2, THEN conjunct1] l
  have "kept 5 0 example_source = [example_reading ''f5'' 500, example_reading ''f10'' 1000]"
    by (simp add: example_source_def upt_conv_Cons)
  ultimately show ?thesis
    by simp
qed

text \<open>
  Counterexample to C2 as the spec states it, one frame kept of every \<open>skip_count + 1\<close>:
  with \<^verbatim>\<open>skip_count = 5\<close> and ten frames, the fifth and the tenth are processed, two of
  the six consecutive frames 5 to 10.
\<close>

theorem skip_cadence_counterexample:
  "skip_count example_config = 5
   \<and> window (snd (main_loop example_config example_env example_process_frame
        example_source example_driver)) = [''f5oW'', ''f10oW'']
   \<and> framecount (snd (main_loop example_config example_env example_process_frame
        example_source example_driver))
      \<noteq> length example_source div (skip_count example_config + 1)"
  by (simp add: example_run) (simp add: example_config_def example_driver_def example_source_def)

text \<open>
  Claim C9, as the code has it. For a kept frame on which \<^verbatim>\<open>process_frame\<close> returns, the
  body of the loop writes two image files, the frame and the annotated frame, and records
  the events under the frame count in \<^verbatim>\<open>detection_events\<close>, exactly when frame saving
  is enabled and the events are a non-empty list; otherwise it writes and records
  nothing. No run of the main loop writes a JSON file: the events stay in memory.
\<close>

theorem frames_saved_when_events:
  assumes "total_seconds (rd_now rd - lastframe_time st) \<noteq> 0"
    and "pf (rd_fps_now rd) (rd_now rd) (resize env (rd_frame rd)) (watcher st)
           = (Inr (p, events), w)"
  shows "disk (snd (loop_body cfg env pf rd st))
      = disk st @
        (if save_frames cfg \<and> events \<noteq> None \<and> the events \<noteq> [] then
           [(save_loc cfg @ ''/'' @ ''frame_'' @ str_nat (framecount st + 1) @ ''.jpeg'',
             Jpeg (resize env (rd_frame rd))),
            (save_loc cfg @ ''/'' @ ''frame_'' @ str_nat (framecount st + 1) @ ''.bb.jpeg'',
             Jpeg (fst (annotated env p events (tracker st))))]
         else [])
    \<and> detection_events (snd (loop_body cfg env pf rd st))
      = (if save_frames cfg \<and> events \<noteq> None \<and> the events \<noteq> [] then
           AList.update (framecount st + 1) (the events) (detection_events st)
         else detection_events st)
    \<and> filter is_json (disk (snd (main_loop cfg env pf src st0))) = filter is_json (disk st0)"
  by (simp add: loop_body_returned [where pf = pf and env = env, OF assms] main_loop_json)

theorem frames_saved_when_events_witness:
  "disk (snd (loop_body (example_config\<lparr>save_frames := True\<rparr>) example_env
      detecting_process_frame (example_reading ''f1'' 100) example_driver))
     = [(''../captures//frame_1.jpeg'', Jpeg ''f1''),
        (''../captures//frame_1.bb.jpeg'', Jpeg ''f1oW'')]
   \<and> disk (snd (loop_body (example_config\<lparr>save_frames := True\<rparr>) example_env
      example_process_frame (example_reading ''f1'' 100) example_driver)) = []"
proof -
  let ?cfg = "example_config\<lparr>save_frames := True\<rparr>"
  let ?rd = "example_reading ''f1'' 100"
  let ?w1 = "(init ''W'' False None 0 0)\<lparr>w_fps_counter := 1\<rparr>"
  have td: "total_seconds (rd_now ?rd - lastframe_time example_driver) \<noteq> 0"
    by (simp add: example_reading_def example_driver_def total_seconds_def)
  have d: "detecting_process_frame (rd_fps_now ?rd) (rd_now ?rd)
      (resize example_env (rd_frame ?rd)) (watcher example_driver)
        = (Inr (''f1oW'', Some [''person'']), ?w1)"
    by (simp add: driver_defs)
  have e: "example_process_frame (rd_fps_now ?rd) (rd_now ?rd)
      (resize example_env (rd_frame ?rd)) (watcher example_driver)
        = (Inr (''f1oW'', Some []), ?w1)"
    by (simp add: driver_defs)
  have s: "save_frames ?cfg" "save_loc ?cfg = ''../captures/''" "disk example_driver = []"
      "framecount example_driver = 0" "str_nat 1 = ''1''"
      "annotated example_env ''f1oW'' (Some [''person'']) (tracker example_driver) = (''f1oW'', 1)"
      "resize example_env (rd_frame ?rd) = ''f1''"
    by (simp_all add: example_config_def example_driver_def str_nat.simps annotated_def
        example_env_def example_reading_def)
  from frames_saved_when_events [where pf = detecting_process_frame and env = example_env and cfg = ?cfg,
      OF td d, THEN conjunct1] s
  have "disk (snd (loop_body ?cfg example_env detecting_process_frame ?rd example_driver))
     = [(''../captures//frame_1.jpeg'', Jpeg ''f1''),
        (''../captures//frame_1.bb.jpeg'', Jpeg ''f1oW'')]"
    by simp
  moreover from frames_saved_when_events [where pf = example_process_frame and env = example_env and cfg = ?cfg,
      OF td e, THEN conjunct1] s
  have "disk (snd (loop_body ?cfg example_env example_process_frame ?rd example_driver)) = []"
    by simp
  ultimately show ?thesis
    by simp
qed

text \<open>
  Counterexample to C9 as the spec states it, the events persisted to disk with the
  frames: a saved frame with one event leaves two image files and no file of events.
\<close>

theorem events_never_written_counterexample:
  "save_frames (example_config\<lparr>skip_count := 1, save_frames := True\<rparr>)
   \<and> detection_events (snd (main_loop (example_config\<lparr>skip_count := 1, save_frames := True\<rparr>)
        example_env detecting_process_frame [example_reading ''f1'' 100] example_driver))
       = [(1, [''person''])]
   \<and> disk (snd (main_loop (example_config\<lparr>skip_count := 1, save_frames := True\<rparr>)
        example_env detecting_process_frame [example_reading ''f1'' 100] example_driver))
       = [(''../captures//frame_1.jpeg'', Jpeg ''f1''),
          (''../captures//frame_1.bb.jpeg'', Jpeg ''f1oW'')]
   \<and> \<not> list_ex is_json
         (disk (snd (main_loop (example_config\<lparr>skip_count := 1, save_frames := True\<rparr>)
            example_env detecting_process_frame [example_reading ''f1'' 100] example_driver)))"
  unfolding example_run_saving by (simp add: example_config_def example_driver_def)

end
